theory Spec2Isabelle
  imports Complex_Main "HOL-Library.Char_ord" "HOL-Library.List_Lexorder"
begin

section \<open>Tables\<close>

text \<open>
  A pandas cell is a number, a text or the missing value. Numbers are modelled as
  rationals: the rules of \<open>clean.py\<close> compare and copy values, and the only arithmetic
  (percentiles, neighbour means) is done by library calls.
\<close>

datatype cell = Num rat | Str string | NaN

datatype error = KeyError string | TypeError | ValueError | IndexError | NameError string

text \<open>
  A DataFrame: the column names in order, and the rows in order, each row carrying its
  index label and one cell per column.
\<close>

record table =
  columns :: "string list"
  rows :: "(cell \<times> cell list) list"

definition wf_table :: "table \<Rightarrow> bool" where
  "wf_table df = (distinct (columns df) \<and>
     list_all (\<lambda>r. length (snd r) = length (columns df)) (rows df))"

definition bindR :: "error + 'a \<Rightarrow> ('a \<Rightarrow> error + 'b) \<Rightarrow> error + 'b" where
  "bindR m f = (case m of Inl e \<Rightarrow> Inl e | Inr x \<Rightarrow> f x)"

fun collect :: "(error + 'a) list \<Rightarrow> error + 'a list" where
  "collect [] = Inr []"
| "collect (x # xs) =
     (case x of Inl e \<Rightarrow> Inl e
      | Inr v \<Rightarrow> (case collect xs of Inl e \<Rightarrow> Inl e | Inr vs \<Rightarrow> Inr (v # vs)))"

fun find_pos :: "string \<Rightarrow> string list \<Rightarrow> nat option" where
  "find_pos c [] = None"
| "find_pos c (x # xs) = (if x = c then Some 0 else map_option Suc (find_pos c xs))"

text \<open>\<open>df[c]\<close> raises KeyError when the table has no column \<open>c\<close>.\<close>

definition col_pos :: "table \<Rightarrow> string \<Rightarrow> error + nat" where
  "col_pos df c = (case find_pos c (columns df) of None \<Rightarrow> Inl (KeyError c) | Some i \<Rightarrow> Inr i)"

definition column_values :: "table \<Rightarrow> string \<Rightarrow> error + cell list" where
  "column_values df c = bindR (col_pos df c) (\<lambda>i. Inr (map (\<lambda>r. snd r ! i) (rows df)))"

section \<open>Comparisons\<close>

text \<open>
  Elementwise comparison as pandas does it: a comparison with the missing value is
  False, two texts compare lexicographically, and ordering a text against a number
  raises TypeError. Equality with a number never raises.
\<close>

fun cell_gt :: "cell \<Rightarrow> cell \<Rightarrow> error + bool" where
  "cell_gt (Num x) (Num y) = Inr (y < x)"
| "cell_gt (Str s) (Str t) = Inr (t < s)"
| "cell_gt (Str s) (Num y) = Inl TypeError"
| "cell_gt (Str s) NaN = Inl TypeError"
| "cell_gt (Num x) (Str t) = Inl TypeError"
| "cell_gt NaN (Str t) = Inl TypeError"
| "cell_gt (Num x) NaN = Inr False"
| "cell_gt NaN (Num y) = Inr False"
| "cell_gt NaN NaN = Inr False"

definition cell_lt :: "cell \<Rightarrow> cell \<Rightarrow> error + bool" where
  "cell_lt a b = cell_gt b a"

fun cell_le :: "cell \<Rightarrow> cell \<Rightarrow> error + bool" where
  "cell_le (Num x) (Num y) = Inr (x \<le> y)"
| "cell_le (Str s) (Str t) = Inr (s \<le> t)"
| "cell_le (Str s) (Num y) = Inl TypeError"
| "cell_le (Str s) NaN = Inl TypeError"
| "cell_le (Num x) (Str t) = Inl TypeError"
| "cell_le NaN (Str t) = Inl TypeError"
| "cell_le (Num x) NaN = Inr False"
| "cell_le NaN (Num y) = Inr False"
| "cell_le NaN NaN = Inr False"

section \<open>The Rule-Based Filter\<close>

text \<open>The boolean masks of \<open>handle_bad_data\<close>, one constructor per shape of mask.\<close>

datatype rule =
    GtCol string string
  | EqConst string rat
  | LeConst string rat
  | GtConst string rat
  | LtConst string rat

fun rule_mask :: "rule \<Rightarrow> table \<Rightarrow> error + bool list" where
  "rule_mask (GtCol a b) df =
     bindR (col_pos df a) (\<lambda>i. bindR (col_pos df b) (\<lambda>j.
       collect (map (\<lambda>r. cell_gt (snd r ! i) (snd r ! j)) (rows df))))"
| "rule_mask (EqConst a n) df =
     bindR (col_pos df a) (\<lambda>i. collect (map (\<lambda>r. Inr (snd r ! i = Num n)) (rows df)))"
| "rule_mask (LeConst a n) df =
     bindR (col_pos df a) (\<lambda>i. collect (map (\<lambda>r. cell_le (snd r ! i) (Num n)) (rows df)))"
| "rule_mask (GtConst a n) df =
     bindR (col_pos df a) (\<lambda>i. collect (map (\<lambda>r. cell_gt (snd r ! i) (Num n)) (rows df)))"
| "rule_mask (LtConst a n) df =
     bindR (col_pos df a) (\<lambda>i. collect (map (\<lambda>r. cell_lt (snd r ! i) (Num n)) (rows df)))"

text \<open>
  \<open>df.drop(df[mask].index)\<close>: the labels of the rows the mask selects are collected,
  and every row that carries one of these labels is removed.
\<close>

definition drop_rows :: "table \<Rightarrow> bool list \<Rightarrow> table" where
  "drop_rows df m =
     (let labels = map (\<lambda>p. fst (fst p)) (filter snd (zip (rows df) m))
      in df\<lparr>rows := filter (\<lambda>r. fst r \<notin> set labels) (rows df)\<rparr>)"

definition drop_where :: "rule \<Rightarrow> table \<Rightarrow> error + table" where
  "drop_where r df = bindR (rule_mask r df) (\<lambda>m. Inr (drop_rows df m))"

fun drop_all :: "rule list \<Rightarrow> table \<Rightarrow> error + table" where
  "drop_all [] df = Inr df"
| "drop_all (r # rs) df = bindR (drop_where r df) (drop_all rs)"

definition removal_rules :: "rule list" where
  "removal_rules =
     [GtCol ''life_sq'' ''full_sq'',
      GtCol ''kitch_sq'' ''full_sq'',
      EqConst ''full_sq'' 5326,
      LeConst ''build_year'' 1691,
      GtConst ''build_year'' 2018,
      GtConst ''max_floor'' 57,
      GtCol ''floor'' ''max_floor'',
      EqConst ''full_sq'' 0,
      EqConst ''full_sq'' 1,
      EqConst ''max_floor'' 0,
      LtConst ''children_preschool'' 0,
      LtConst ''preschool_quota'' 0,
      LtConst ''children_school'' 0,
      LtConst ''school_quota'' 0]"

text \<open>
  \<open>stats.mode(values)[0][0]\<close>: the values are sorted and counted (\<open>np.unique\<close> with
  counts) and the first value with the greatest count is taken, so ties go to the
  smallest value. On an empty column the result arrays are empty and \<open>[0][0]\<close> raises
  IndexError. Missing values never equal each other, so each counts once and sorts last;
  a column that mixes texts with numbers cannot be sorted.
\<close>

definition unique_counts :: "'a::linorder list \<Rightarrow> ('a \<times> nat) list" where
  "unique_counts xs = map (\<lambda>v. (v, count_list xs v)) (sort (remdups xs))"

fun first_max :: "'a \<times> nat \<Rightarrow> ('a \<times> nat) list \<Rightarrow> 'a" where
  "first_max best [] = fst best"
| "first_max best (p # ps) = (if snd best < snd p then first_max p ps else first_max best ps)"

definition mode1D :: "'a::linorder list \<Rightarrow> 'a option" where
  "mode1D xs = (case unique_counts xs of [] \<Rightarrow> None | p # ps \<Rightarrow> Some (first_max p ps))"

fun num_values :: "cell list \<Rightarrow> rat list" where
  "num_values [] = []"
| "num_values (Num x # cs) = x # num_values cs"
| "num_values (c # cs) = num_values cs"

fun str_values :: "cell list \<Rightarrow> string list" where
  "str_values [] = []"
| "str_values (Str s # cs) = s # str_values cs"
| "str_values (c # cs) = str_values cs"

fun is_Str :: "cell \<Rightarrow> bool" where
  "is_Str (Str s) = True"
| "is_Str c = False"

definition stats_mode :: "cell list \<Rightarrow> error + cell" where
  "stats_mode cs =
     (if cs = [] then Inl IndexError
      else if list_all is_Str cs then
        (case mode1D (str_values cs) of None \<Rightarrow> Inl IndexError | Some s \<Rightarrow> Inr (Str s))
      else if list_ex is_Str cs then Inl TypeError
      else (case mode1D (num_values cs) of None \<Rightarrow> Inr NaN | Some x \<Rightarrow> Inr (Num x)))"

text \<open>\<open>df[c].loc[df[c] == old] = new\<close>, on the table itself.\<close>

definition upd_row :: "nat \<Rightarrow> rat \<Rightarrow> cell \<Rightarrow> cell \<times> cell list \<Rightarrow> cell \<times> cell list" where
  "upd_row i old new r = (fst r, if snd r ! i = Num old then (snd r)[i := new] else snd r)"

definition replace_eq :: "string \<Rightarrow> rat \<Rightarrow> cell \<Rightarrow> table \<Rightarrow> error + table" where
  "replace_eq c old new df =
     bindR (col_pos df c) (\<lambda>i. Inr (df\<lparr>rows := map (upd_row i old new) (rows df)\<rparr>))"

definition handle_bad_data :: "table \<Rightarrow> error + table" where
  "handle_bad_data df =
     bindR (drop_all removal_rules df) (\<lambda>df.
     bindR (column_values df ''state'') (\<lambda>vs.
     bindR (stats_mode vs) (\<lambda>m.
     bindR (replace_eq ''state'' 33 m df) (\<lambda>df.
     replace_eq ''build_year'' 20052009 (Num 2007) df))))"

section \<open>Definitions for the properties of the filter\<close>

text \<open>
  The columns a mask reads, the value of a column in one row, and the mask's verdict on
  one row: the masks above are this verdict, row by row.
\<close>

fun rule_cols :: "rule \<Rightarrow> string list" where
  "rule_cols (GtCol a b) = [a, b]"
| "rule_cols (EqConst a n) = [a]"
| "rule_cols (LeConst a n) = [a]"
| "rule_cols (GtConst a n) = [a]"
| "rule_cols (LtConst a n) = [a]"

definition cell_of :: "string list \<Rightarrow> cell list \<Rightarrow> string \<Rightarrow> cell" where
  "cell_of cs r c = (case find_pos c cs of None \<Rightarrow> NaN | Some i \<Rightarrow> r ! i)"

fun rule_test :: "rule \<Rightarrow> string list \<Rightarrow> cell list \<Rightarrow> error + bool" where
  "rule_test (GtCol a b) cs r = cell_gt (cell_of cs r a) (cell_of cs r b)"
| "rule_test (EqConst a n) cs r = Inr (cell_of cs r a = Num n)"
| "rule_test (LeConst a n) cs r = cell_le (cell_of cs r a) (Num n)"
| "rule_test (GtConst a n) cs r = cell_gt (cell_of cs r a) (Num n)"
| "rule_test (LtConst a n) cs r = cell_lt (cell_of cs r a) (Num n)"

definition clean_for :: "rule \<Rightarrow> string list \<Rightarrow> (cell \<times> cell list) list \<Rightarrow> bool" where
  "clean_for r cs rs = (set (rule_cols r) \<subseteq> set cs \<and>
     (\<forall>row \<in> set rs. rule_test r cs (snd row) = Inr False))"

text \<open>
  What the filter establishes for a surviving row with column names \<open>cs\<close> and cells
  \<open>r\<close>: none of the removal masks selects it. The comparisons are those of the code, so
  for two numbers \<open>cell_gt (Num x) (Num y) = Inr False\<close> says \<open>x \<le> y\<close>.
\<close>

definition filter_invariant :: "string list \<Rightarrow> cell list \<Rightarrow> bool" where
  "filter_invariant cs r =
     (cell_gt (cell_of cs r ''life_sq'') (cell_of cs r ''full_sq'') = Inr False \<and>
      cell_gt (cell_of cs r ''kitch_sq'') (cell_of cs r ''full_sq'') = Inr False \<and>
      cell_gt (cell_of cs r ''floor'') (cell_of cs r ''max_floor'') = Inr False \<and>
      cell_le (cell_of cs r ''build_year'') (Num 1691) = Inr False \<and>
      cell_gt (cell_of cs r ''build_year'') (Num 2018) = Inr False \<and>
      cell_of cs r ''full_sq'' \<noteq> Num 0 \<and>
      cell_of cs r ''full_sq'' \<noteq> Num 1 \<and>
      cell_of cs r ''full_sq'' \<noteq> Num 5326 \<and>
      cell_of cs r ''max_floor'' \<noteq> Num 0 \<and>
      cell_gt (cell_of cs r ''max_floor'') (Num 57) = Inr False \<and>
      cell_lt (cell_of cs r ''children_preschool'') (Num 0) = Inr False \<and>
      cell_lt (cell_of cs r ''preschool_quota'') (Num 0) = Inr False \<and>
      cell_lt (cell_of cs r ''children_school'') (Num 0) = Inr False \<and>
      cell_lt (cell_of cs r ''school_quota'') (Num 0) = Inr False \<and>
      cell_of cs r ''build_year'' \<noteq> Num 20052009)"

text \<open>The columns the filter reads, for the examples below.\<close>

definition filter_cols :: "string list" where
  "filter_cols = [''life_sq'', ''full_sq'', ''kitch_sq'', ''build_year'', ''max_floor'', ''floor'',
     ''children_preschool'', ''preschool_quota'', ''children_school'', ''school_quota'', ''state'']"


text \<open>
  Claim C7 in the spec's words adds two conditions to the invariant: \<open>0 < max_floor\<close>, and
  \<open>state \<noteq> 33\<close> without exception.
\<close>

definition filter_invariant_claimed :: "string list \<Rightarrow> cell list \<Rightarrow> bool" where
  "filter_invariant_claimed cs r =
     (filter_invariant cs r \<and>
      cell_gt (cell_of cs r ''max_floor'') (Num 0) = Inr True \<and>
      cell_of cs r ''state'' \<noteq> Num 33)"

text \<open>
  Example tables. In \<open>survey_example\<close> row 1 has \<open>life_sq > full_sq\<close>, row 3 has the
  build year 20052009 and row 2 the state 33; in \<open>mode33_example\<close> the state 33 is the
  most frequent one among the rows that stay.
\<close>

definition survey_example :: table where
  "survey_example =
     \<lparr>columns = filter_cols,
      rows = [(Num 0, [Num 30, Num 50, Num 8, Num 2000, Num 9, Num 3, Num 0, Num 0, Num 0, Num 0, Num 2]),
              (Num 1, [Num 80, Num 50, Num 8, Num 2000, Num 9, Num 3, Num 0, Num 0, Num 0, Num 0, Num 2]),
              (Num 2, [Num 30, Num 50, Num 8, Num 2000, Num 9, Num 3, Num 0, Num 0, Num 0, Num 0, Num 33]),
              (Num 3, [Num 30, Num 50, Num 8, Num 20052009, Num 9, Num 3, Num 0, Num 0, Num 0, Num 0, Num 3])]\<rparr>"

definition survey_example_cleaned :: table where
  "survey_example_cleaned =
     \<lparr>columns = filter_cols,
      rows = [(Num 0, [Num 30, Num 50, Num 8, Num 2000, Num 9, Num 3, Num 0, Num 0, Num 0, Num 0, Num 2]),
              (Num 2, [Num 30, Num 50, Num 8, Num 2000, Num 9, Num 3, Num 0, Num 0, Num 0, Num 0, Num 2])]\<rparr>"

definition mode33_example :: table where
  "mode33_example =
     \<lparr>columns = filter_cols,
      rows = [(Num 0, [Num 30, Num 50, Num 8, Num 2000, Num 9, Num 3, Num 0, Num 0, Num 0, Num 0, Num 33]),
              (Num 1, [Num 80, Num 50, Num 8, Num 2000, Num 9, Num 3, Num 0, Num 0, Num 0, Num 0, Num 2]),
              (Num 2, [Num 30, NaN, Num 8, Num 2000, Num 9, Num 3, Num 0, Num 0, Num 0, Num 0, Num 33]),
              (Num 3, [Num 30, Num 50, Num 8, Num 1990, Num 9, Num 3, Num 0, Num 0, Num 0, Num 0, Num 2])]\<rparr>"

definition mode33_example_cleaned :: table where
  "mode33_example_cleaned =
     \<lparr>columns = filter_cols,
      rows = [(Num 0, [Num 30, Num 50, Num 8, Num 2000, Num 9, Num 3, Num 0, Num 0, Num 0, Num 0, Num 33]),
              (Num 2, [Num 30, NaN, Num 8, Num 2000, Num 9, Num 3, Num 0, Num 0, Num 0, Num 0, Num 33]),
              (Num 3, [Num 30, Num 50, Num 8, Num 1990, Num 9, Num 3, Num 0, Num 0, Num 0, Num 0, Num 2])]\<rparr>"

section \<open>The Outlier Truncator\<close>

text \<open>
  \<open>np.percentile\<close> with linear interpolation between order statistics: on \<open>n\<close> sorted
  values the percentile \<open>q\<close> sits at position \<open>q / 100 * (n - 1)\<close>. A missing value in the
  input makes the result missing; an empty input has no order statistic to take.
\<close>

definition percentile_sorted :: "rat list \<Rightarrow> rat \<Rightarrow> rat" where
  "percentile_sorted xs q =
     (let n = length xs;
          pos = q / 100 * of_nat (n - 1);
          below = nat \<lfloor>pos\<rfloor>;
          above = min (below + 1) (n - 1);
          g = pos - of_nat below
      in xs ! below + g * (xs ! above - xs ! below))"

definition np_percentile :: "cell list \<Rightarrow> rat \<Rightarrow> error + cell" where
  "np_percentile cs q =
     (if list_ex is_Str cs then Inl TypeError
      else if cs = [] then Inl IndexError
      else if NaN \<in> set cs then Inr NaN
      else Inr (Num (percentile_sorted (sort (num_values cs)) q)))"

text \<open>\<open>df[c].loc[df[c] > limit] = limit\<close> and its mirror image, on the table itself.\<close>

definition assign_where ::
  "(cell \<Rightarrow> cell \<Rightarrow> error + bool) \<Rightarrow> string \<Rightarrow> cell \<Rightarrow> table \<Rightarrow> error + table" where
  "assign_where cmp c limit df =
     bindR (col_pos df c) (\<lambda>i.
     bindR (collect (map (\<lambda>r. cmp (snd r ! i) limit) (rows df))) (\<lambda>m.
       Inr (df\<lparr>rows := map (\<lambda>p. if snd p then (fst (fst p), (snd (fst p))[i := limit]) else fst p)
                          (zip (rows df) m)\<rparr>)))"

text \<open>
  The values Python tests for membership in \<open>df.columns\<close>. The labels of a table are
  texts; the loop variable \<open>col\<close> of \<open>truncate_extreme_values\<close> is a triple, and a triple
  equals no text.
\<close>

datatype pyval = PyStr string | PyTriple string rat rat

definition in_columns :: "pyval \<Rightarrow> table \<Rightarrow> bool" where
  "in_columns v df = (v \<in> set (map PyStr (columns df)))"

definition cols :: "(string \<times> rat \<times> rat) list" where
  "cols = [(''price_doc'', 199 / 2, 1 / 2), (''full_sq'', 199 / 2, 1 / 2), (''life_sq'', 95, 5)]"

text \<open>The body of the loop, lines 28 to 36, for one triple \<open>(col[0], col[1], col[2])\<close>.\<close>

definition truncate_body :: "string \<times> rat \<times> rat \<Rightarrow> table \<Rightarrow> error + table" where
  "truncate_body col df =
     (case col of (name, high, low) \<Rightarrow>
        bindR (column_values df name) (\<lambda>col_values.
        bindR (np_percentile (filter (\<lambda>c. c \<noteq> Num (- 99)) col_values) high) (\<lambda>upper_limit.
        bindR (np_percentile (filter (\<lambda>c. c \<noteq> Num (- 99)) col_values) low) (\<lambda>lower_limit.
        bindR (assign_where cell_gt name upper_limit df) (\<lambda>df.
        assign_where cell_lt name lower_limit df)))))"

text \<open>The guard of line 27 tests the triple itself, not its first component.\<close>

definition truncate_col :: "string \<times> rat \<times> rat \<Rightarrow> table \<Rightarrow> error + table" where
  "truncate_col col df =
     (case col of (name, high, low) \<Rightarrow>
        if in_columns (PyTriple name high low) df then truncate_body col df else Inr df)"

fun truncate_loop :: "(string \<times> rat \<times> rat) list \<Rightarrow> table \<Rightarrow> error + table" where
  "truncate_loop [] df = Inr df"
| "truncate_loop (col # rest) df = bindR (truncate_col col df) (truncate_loop rest)"

definition truncate_extreme_values :: "table \<Rightarrow> error + table" where
  "truncate_extreme_values df = truncate_loop cols df"

section \<open>The Categorical Encoder\<close>

text \<open>
  \<open>values.astype("str")\<close>: a text is itself and the missing value is the text \<open>nan\<close>.
  How Python prints a number is not part of \<open>clean.py\<close>; it is the parameter \<open>fmt\<close>.
\<close>

fun astype_str :: "(rat \<Rightarrow> string) \<Rightarrow> cell \<Rightarrow> string" where
  "astype_str fmt (Str s) = s"
| "astype_str fmt (Num x) = fmt x"
| "astype_str fmt NaN = ''nan''"

text \<open>
  \<open>LabelEncoder\<close>: \<open>fit\<close> keeps the sorted distinct values as its classes, \<open>transform\<close>
  replaces each value by its position among the classes and raises on a value that
  \<open>fit\<close> has not seen.
\<close>

definition LabelEncoder_fit :: "string list \<Rightarrow> string list" where
  "LabelEncoder_fit y = sort (remdups y)"

definition LabelEncoder_transform :: "string list \<Rightarrow> string list \<Rightarrow> error + nat list" where
  "LabelEncoder_transform classes y =
     collect (map (\<lambda>s. case find_pos s classes of None \<Rightarrow> Inl ValueError | Some k \<Rightarrow> Inr k) y)"

text \<open>\<open>df[f] = values\<close> for a column that exists.\<close>

definition set_column :: "nat \<Rightarrow> cell list \<Rightarrow> table \<Rightarrow> table" where
  "set_column i vs df =
     df\<lparr>rows := map (\<lambda>p. (fst (fst p), (snd (fst p))[i := snd p])) (zip (rows df) vs)\<rparr>"

text \<open>
  One turn of the loop over \<open>df.columns\<close>. A column has dtype \<open>object\<close> when it holds a
  text; a column of numbers and missing values is numeric.
\<close>

definition encode_column :: "(rat \<Rightarrow> string) \<Rightarrow> string \<Rightarrow> table \<Rightarrow> error + table" where
  "encode_column fmt f df =
     bindR (column_values df f) (\<lambda>vals.
       if list_ex is_Str vals \<and> f \<noteq> ''timestamp'' then
         bindR (LabelEncoder_transform
                  (LabelEncoder_fit (map (astype_str fmt) vals @ map (astype_str fmt) vals))
                  (map (astype_str fmt) vals)) (\<lambda>codes.
         bindR (col_pos df f) (\<lambda>i.
           Inr (set_column i (map (\<lambda>k. Num (of_nat k)) codes) df)))
       else Inr df)"

fun encode_loop :: "(rat \<Rightarrow> string) \<Rightarrow> string list \<Rightarrow> table \<Rightarrow> error + table" where
  "encode_loop fmt [] df = Inr df"
| "encode_loop fmt (f # fs) df = bindR (encode_column fmt f df) (encode_loop fmt fs)"

definition convert_categorical_to_numerical :: "(rat \<Rightarrow> string) \<Rightarrow> table \<Rightarrow> error + table" where
  "convert_categorical_to_numerical fmt df = encode_loop fmt (columns df) df"

text \<open>
  The encoder of claim C10, in the claim's words: the same loop, with the classes fitted
  on the list of values once.
\<close>

definition encode_column_once :: "(rat \<Rightarrow> string) \<Rightarrow> string \<Rightarrow> table \<Rightarrow> error + table" where
  "encode_column_once fmt f df =
     bindR (column_values df f) (\<lambda>vals.
       if list_ex is_Str vals \<and> f \<noteq> ''timestamp'' then
         bindR (LabelEncoder_transform
                  (LabelEncoder_fit (map (astype_str fmt) vals))
                  (map (astype_str fmt) vals)) (\<lambda>codes.
         bindR (col_pos df f) (\<lambda>i.
           Inr (set_column i (map (\<lambda>k. Num (of_nat k)) codes) df)))
       else Inr df)"

fun encode_loop_once :: "(rat \<Rightarrow> string) \<Rightarrow> string list \<Rightarrow> table \<Rightarrow> error + table" where
  "encode_loop_once fmt [] df = Inr df"
| "encode_loop_once fmt (f # fs) df = bindR (encode_column_once fmt f df) (encode_loop_once fmt fs)"

definition convert_fit_once :: "(rat \<Rightarrow> string) \<Rightarrow> table \<Rightarrow> error + table" where
  "convert_fit_once fmt df = encode_loop_once fmt (columns df) df"

text \<open>
  For the properties of the encoder: the position of a class, a column by position and by
  name, and the column the encoder writes.
\<close>

definition class_index :: "string list \<Rightarrow> string \<Rightarrow> nat" where
  "class_index classes s = (case find_pos s classes of None \<Rightarrow> 0 | Some k \<Rightarrow> k)"

definition column_at :: "nat \<Rightarrow> table \<Rightarrow> cell list" where
  "column_at i df = map (\<lambda>r. snd r ! i) (rows df)"

definition the_column :: "table \<Rightarrow> string \<Rightarrow> cell list" where
  "the_column df c = (case find_pos c (columns df) of None \<Rightarrow> [] | Some i \<Rightarrow> column_at i df)"

definition encoded_column :: "(rat \<Rightarrow> string) \<Rightarrow> string \<Rightarrow> cell list \<Rightarrow> cell list" where
  "encoded_column fmt c vals =
     (if list_ex is_Str vals \<and> c \<noteq> ''timestamp''
      then map (\<lambda>v. Num (of_nat (class_index (LabelEncoder_fit (map (astype_str fmt) vals))
                                     (astype_str fmt v)))) vals
      else vals)"

text \<open>
  Claim C8 for one column: \<open>new\<close> is \<open>old\<close> encoded. A column of texts other than
  \<open>timestamp\<close> becomes a column of codes, natural numbers that fill \<open>0, \<dots>, n - 1\<close> for
  the \<open>n\<close> distinct texts of the column and are ordered as the texts are; any other
  column is unchanged.
\<close>

definition encoded_as :: "(rat \<Rightarrow> string) \<Rightarrow> string \<Rightarrow> cell list \<Rightarrow> cell list \<Rightarrow> bool" where
  "encoded_as fmt c old new =
     (if list_ex is_Str old \<and> c \<noteq> ''timestamp''
      then (\<exists>codes. new = map (\<lambda>k. Num (of_nat k)) codes \<and> length codes = length old \<and>
              set codes = {..<card (set (map (astype_str fmt) old))} \<and>
              (\<forall>i<length old. \<forall>j<length old.
                 (codes ! i < codes ! j) = (astype_str fmt (old ! i) < astype_str fmt (old ! j))))
      else new = old)"

text \<open>An example table with a text column, a date column and a numeric column.\<close>

definition sales_example :: table where
  "sales_example =
     \<lparr>columns = [''timestamp'', ''product_type'', ''full_sq''],
      rows = [(Num 1, [Str ''2011-08-20'', Str ''OwnerOccupier'', Num 43]),
              (Num 2, [Str ''2011-08-23'', Str ''Investment'', Num 34]),
              (Num 3, [Str ''2011-08-27'', NaN, NaN]),
              (Num 4, [Str ''2011-09-01'', Str ''OwnerOccupier'', Num 77])]\<rparr>"

definition sales_example_encoded :: table where
  "sales_example_encoded =
     \<lparr>columns = [''timestamp'', ''product_type'', ''full_sq''],
      rows = [(Num 1, [Str ''2011-08-20'', Num 1, Num 43]),
              (Num 2, [Str ''2011-08-23'', Num 0, Num 34]),
              (Num 3, [Str ''2011-08-27'', Num 2, NaN]),
              (Num 4, [Str ''2011-09-01'', Num 1, Num 77])]\<rparr>"

section \<open>The Imputer\<close>

text \<open>
  \<open>KNNImputer(n_neighbors=5).fit_transform\<close>, for what it does to the shape of the data.
  The array must be numeric and have a row and a column. Columns without any observed
  value are left out of the result; every other missing cell is filled with a number,
  the mean of that column over the nearest rows (or over the whole column when no row
  is comparable), and observed cells are kept. The filled-in number is computed by the
  library in floating point; here it is the parameter \<open>fill\<close>, a function of the input
  array and the position of the cell.
\<close>

definition observed_col :: "cell list list \<Rightarrow> nat \<Rightarrow> bool" where
  "observed_col X j = list_ex (\<lambda>row. row ! j \<noteq> NaN) X"

definition impute_row ::
  "(cell list list \<Rightarrow> nat \<Rightarrow> nat \<Rightarrow> rat) \<Rightarrow> cell list list \<Rightarrow> nat list \<Rightarrow> nat \<times> cell list \<Rightarrow> cell list" where
  "impute_row fill X valid p =
     map (\<lambda>j. if snd p ! j = NaN then Num (fill X (fst p) j) else snd p ! j) valid"

definition KNNImputer_fit_transform ::
  "(cell list list \<Rightarrow> nat \<Rightarrow> nat \<Rightarrow> rat) \<Rightarrow> cell list list \<Rightarrow> error + cell list list" where
  "KNNImputer_fit_transform fill X =
     (if list_ex (list_ex is_Str) X then Inl ValueError
      else if X = [] then Inl ValueError
      else if hd X = [] then Inl ValueError
      else Inr (map (impute_row fill X (filter (observed_col X) [0..<length (hd X)]))
                    (enumerate 0 X)))"

text \<open>
  \<open>pd.DataFrame(array, columns=names)\<close>: the array must have one column per name; the
  rows are labelled \<open>0, 1, 2, \<dots>\<close>.
\<close>

definition DataFrame :: "cell list list \<Rightarrow> string list \<Rightarrow> error + table" where
  "DataFrame arr names =
     (if list_all (\<lambda>row. length row = length names) arr
      then Inr \<lparr>columns = names, rows = map (\<lambda>p. (Num (of_nat (fst p)), snd p)) (enumerate 0 arr)\<rparr>
      else Inl ValueError)"

definition drop_nth :: "nat \<Rightarrow> 'a list \<Rightarrow> 'a list" where
  "drop_nth i xs = take i xs @ drop (Suc i) xs"

text \<open>
  \<open>impute_missing_values_data\<close>: the timestamp column is dropped, the rest is imputed
  and made a new table, and the timestamp values of the copy are assigned as a column of
  the new table, which has no such column and so gets it as its last one.
\<close>

definition impute_missing_values_data ::
  "(cell list list \<Rightarrow> nat \<Rightarrow> nat \<Rightarrow> rat) \<Rightarrow> table \<Rightarrow> error + table" where
  "impute_missing_values_data fill df =
     bindR (col_pos df ''timestamp'') (\<lambda>t.
     bindR (KNNImputer_fit_transform fill (map (\<lambda>r. drop_nth t (snd r)) (rows df))) (\<lambda>arr.
     bindR (DataFrame arr (drop_nth t (columns df))) (\<lambda>new.
       Inr \<lparr>columns = columns new @ [''timestamp''],
            rows = map (\<lambda>p. (fst (fst p), snd (fst p) @ [snd p]))
                       (zip (rows new) (map (\<lambda>r. snd r ! t) (rows df)))\<rparr>)))"

text \<open>
  \<open>impute_missing_values_macro\<close>: all columns are imputed, and the new table gets the
  index of the copy.
\<close>

definition impute_missing_values_macro ::
  "(cell list list \<Rightarrow> nat \<Rightarrow> nat \<Rightarrow> rat) \<Rightarrow> table \<Rightarrow> error + table" where
  "impute_missing_values_macro fill df =
     bindR (KNNImputer_fit_transform fill (map snd (rows df))) (\<lambda>arr.
     bindR (DataFrame arr (columns df)) (\<lambda>new.
       Inr (new\<lparr>rows := map (\<lambda>p. (snd p, snd (fst p))) (zip (rows new) (map fst (rows df)))\<rparr>)))"

text \<open>The cell the imputer returns at row \<open>k\<close> and column \<open>j\<close> of the array \<open>X\<close>.\<close>

definition filled :: "(cell list list \<Rightarrow> nat \<Rightarrow> nat \<Rightarrow> rat) \<Rightarrow> cell list list \<Rightarrow> nat \<Rightarrow> nat \<Rightarrow> cell" where
  "filled fill X k j = (if X ! k ! j = NaN then Num (fill X k j) else X ! k ! j)"

text \<open>
  Example tables: a macro table keyed by date, and the results of the two imputers on it
  and on the encoded sales table, with 0 as the filled-in number.
\<close>

definition macro_example :: table where
  "macro_example =
     \<lparr>columns = [''cpi'', ''usdrub''],
      rows = [(Str ''2011-08-20'', [Num 354, NaN]),
              (Str ''2011-08-23'', [NaN, Num 29]),
              (Str ''2011-08-27'', [Num 356, Num 30])]\<rparr>"

definition macro_example_imputed :: table where
  "macro_example_imputed =
     \<lparr>columns = [''cpi'', ''usdrub''],
      rows = [(Str ''2011-08-20'', [Num 354, Num 0]),
              (Str ''2011-08-23'', [Num 0, Num 29]),
              (Str ''2011-08-27'', [Num 356, Num 30])]\<rparr>"

definition sales_example_imputed :: table where
  "sales_example_imputed =
     \<lparr>columns = [''product_type'', ''full_sq'', ''timestamp''],
      rows = [(Num 0, [Num 1, Num 43, Str ''2011-08-20'']),
              (Num 1, [Num 0, Num 34, Str ''2011-08-23'']),
              (Num 2, [Num 2, Num 0, Str ''2011-08-27'']),
              (Num 3, [Num 1, Num 77, Str ''2011-09-01''])]\<rparr>"

section \<open>The macro pipeline\<close>

text \<open>
  The functions of one table that the module defines, by name. A call of a name looks
  it up when the call is executed and raises NameError when the module has no such name.
  (\<open>correct_lon_lat\<close> and \<open>clean_data\<close> take two tables and are not called by
  \<open>clean_macro\<close>.)
\<close>

definition module_functions ::
  "(rat \<Rightarrow> string) \<Rightarrow> (cell list list \<Rightarrow> nat \<Rightarrow> nat \<Rightarrow> rat) \<Rightarrow> (string \<times> (table \<Rightarrow> error + table)) list" where
  "module_functions fmt fill =
     [(''truncate_extreme_values'', truncate_extreme_values),
      (''convert_categorical_to_numerical'', convert_categorical_to_numerical fmt),
      (''impute_missing_values_data'', impute_missing_values_data fill),
      (''impute_missing_values_macro'', impute_missing_values_macro fill),
      (''handle_bad_data'', handle_bad_data)]"

definition call ::
  "(rat \<Rightarrow> string) \<Rightarrow> (cell list list \<Rightarrow> nat \<Rightarrow> nat \<Rightarrow> rat) \<Rightarrow> string \<Rightarrow> table \<Rightarrow> error + table" where
  "call fmt fill name df =
     (case map_of (module_functions fmt fill) name of
        None \<Rightarrow> Inl (NameError name)
      | Some f \<Rightarrow> f df)"

text \<open>\<open>clean_macro\<close>, lines 131 to 136; line 133 calls \<open>truncate_extreme_value\<close>.\<close>

definition clean_macro ::
  "(rat \<Rightarrow> string) \<Rightarrow> (cell list list \<Rightarrow> nat \<Rightarrow> nat \<Rightarrow> rat) \<Rightarrow> table \<Rightarrow> error + table" where
  "clean_macro fmt fill df =
     bindR (call fmt fill ''truncate_extreme_value'' df) (\<lambda>df.
     bindR (call fmt fill ''convert_categorical_to_numerical'' df) (\<lambda>df.
     call fmt fill ''impute_missing_values_macro'' df))"

section \<open>The Writer\<close>

text \<open>
  The file store maps a path to the content of the file. \<open>to_csv(path, index=False)\<close>
  writes the header and the cells of each row, without the row labels, and replaces
  what the path held.
\<close>

type_synonym csv = "string list \<times> cell list list"

definition to_csv :: "table \<Rightarrow> string \<Rightarrow> (string \<rightharpoonup> csv) \<Rightarrow> (string \<rightharpoonup> csv)" where
  "to_csv df path files = files(path \<mapsto> (columns df, map snd (rows df)))"

definition TRAIN_OUT_PATH :: string where
  "TRAIN_OUT_PATH = ''output/train.csv''"

definition TEST_OUT_PATH :: string where
  "TEST_OUT_PATH = ''output/test.csv''"

definition MACRO_OUT_PATH :: string where
  "MACRO_OUT_PATH = ''output/test.csv''"

text \<open>Lines 165 to 167, in their order.\<close>

definition write_cleaned ::
  "table \<Rightarrow> table \<Rightarrow> table \<Rightarrow> (string \<rightharpoonup> csv) \<Rightarrow> (string \<rightharpoonup> csv)" where
  "write_cleaned df_train_clean df_test_clean df_macro_clean files =
     to_csv df_macro_clean MACRO_OUT_PATH
       (to_csv df_test_clean TEST_OUT_PATH
          (to_csv df_train_clean TRAIN_OUT_PATH files))"

section \<open>The Joiner\<close>

text \<open>
  \<open>df.merge(macro, how="left", left_on="timestamp", right_index=True)\<close>. Each row of
  \<open>df\<close>, in order, is paired with every row of \<open>macro\<close> whose label equals its timestamp;
  a row without a partner is kept once, with missing values in the columns of \<open>macro\<close>.
  A column name that both tables have gets the suffix \<open>_x\<close> on the left and \<open>_y\<close> on the
  right. Keys of text cannot be merged with keys of numbers. The labels of the result
  play no part: it is written with \<open>index=False\<close>.
\<close>

definition merge_row :: "nat \<Rightarrow> table \<Rightarrow> cell \<times> cell list \<Rightarrow> (cell \<times> cell list) list" where
  "merge_row t macro l =
     (let partners = filter (\<lambda>r. fst r = snd l ! t) (rows macro)
      in if partners = [] then [(fst l, snd l @ replicate (length (columns macro)) NaN)]
         else map (\<lambda>r. (fst l, snd l @ snd r)) partners)"

definition merge_left :: "table \<Rightarrow> table \<Rightarrow> error + table" where
  "merge_left df macro =
     bindR (col_pos df ''timestamp'') (\<lambda>t.
       if rows df \<noteq> [] \<and> rows macro \<noteq> [] \<and>
          list_ex is_Str (map (\<lambda>r. snd r ! t) (rows df)) \<noteq> list_ex is_Str (map fst (rows macro))
       then Inl ValueError
       else Inr \<lparr>columns =
                   map (\<lambda>c. if c \<in> set (columns macro) then c @ ''_x'' else c) (columns df) @
                   map (\<lambda>c. if c \<in> set (columns df) then c @ ''_y'' else c) (columns macro),
                 rows = concat (map (merge_row t macro) (rows df))\<rparr>)"

text \<open>The join of the imputed sales table with the imputed macro table.\<close>

definition sales_macro_example :: table where
  "sales_macro_example =
     \<lparr>columns = [''product_type'', ''full_sq'', ''timestamp'', ''cpi'', ''usdrub''],
      rows = [(Num 0, [Num 1, Num 43, Str ''2011-08-20'', Num 354, Num 0]),
              (Num 1, [Num 0, Num 34, Str ''2011-08-23'', Num 0, Num 29]),
              (Num 2, [Num 2, Num 0, Str ''2011-08-27'', Num 356, Num 30]),
              (Num 3, [Num 1, Num 77, Str ''2011-09-01'', NaN, NaN])]\<rparr>"

section \<open>Properties of the Rule-Based Filter\<close>

lemma bindR_Inr_iff: "bindR m f = Inr y \<longleftrightarrow> (\<exists>x. m = Inr x \<and> f x = Inr y)"
  by (cases m) (simp_all add: bindR_def)

lemma collect_map_Inr:
  "collect (map f xs) = Inr vs \<Longrightarrow> map f xs = map Inr vs"
  by (induction xs arbitrary: vs) (auto split: sum.splits)

lemma collect_map_Inr_iff:
  "collect (map f xs) = Inr vs \<longleftrightarrow> map f xs = map Inr vs"
proof
  show "map f xs = map Inr vs \<Longrightarrow> collect (map f xs) = Inr vs"
    by (induction xs arbitrary: vs) auto
qed (rule collect_map_Inr)

lemma find_pos_less: "find_pos c cs = Some i \<Longrightarrow> i < length cs"
  by (induction cs arbitrary: i) (auto split: if_splits)

lemma find_pos_nth: "find_pos c cs = Some i \<Longrightarrow> cs ! i = c"
  by (induction cs arbitrary: i) (auto split: if_splits)

lemma find_pos_inj: "find_pos a cs = Some i \<Longrightarrow> find_pos b cs = Some i \<Longrightarrow> a = b"
  using find_pos_nth by metis

lemma find_pos_None_iff: "find_pos c cs = None \<longleftrightarrow> c \<notin> set cs"
  by (induction cs) auto

lemma find_pos_Some_mem: "find_pos c cs = Some i \<Longrightarrow> c \<in> set cs"
  using find_pos_None_iff[of c cs] by auto

lemma rule_mask_iff:
  "rule_mask r df = Inr m \<longleftrightarrow>
     set (rule_cols r) \<subseteq> set (columns df) \<and>
     map (\<lambda>row. rule_test r (columns df) (snd row)) (rows df) = map Inr m"
  by (cases r)
     (auto simp: bindR_Inr_iff col_pos_def cell_of_def collect_map_Inr_iff find_pos_None_iff
           split: option.splits dest: find_pos_Some_mem)

lemma drop_rows_columns [simp]: "columns (drop_rows df m) = columns df"
  by (simp add: drop_rows_def Let_def)

lemma drop_rows_subset: "set (rows (drop_rows df m)) \<subseteq> set (rows df)"
  by (auto simp: drop_rows_def Let_def)

lemma drop_rows_clean:
  assumes "length m = length (rows df)" and "row \<in> set (rows (drop_rows df m))"
  shows "(row, True) \<notin> set (zip (rows df) m)"
proof
  assume "(row, True) \<in> set (zip (rows df) m)"
  then have "fst row \<in> set (map (\<lambda>p. fst (fst p)) (filter snd (zip (rows df) m)))"
    by force
  with assms(2) show False
    by (simp add: drop_rows_def Let_def)
qed

lemma drop_rows_none:
  assumes "list_all (\<lambda>b. \<not> b) m"
  shows "drop_rows df m = df"
proof -
  have "filter snd (zip (rows df) m) = []"
    using assms by (auto simp: filter_empty_conv list_all_iff dest: set_zip_rightD)
  then show ?thesis
    by (simp add: drop_rows_def Let_def)
qed

lemma drop_where_sound:
  assumes "drop_where r df = Inr df'"
  shows "columns df' = columns df" and "set (rows df') \<subseteq> set (rows df)"
    and "clean_for r (columns df) (rows df')"
proof -
  from assms obtain m where m: "rule_mask r df = Inr m" and df': "df' = drop_rows df m"
    by (auto simp: drop_where_def bindR_Inr_iff)
  from m have cols: "set (rule_cols r) \<subseteq> set (columns df)"
    and tests: "map (\<lambda>row. rule_test r (columns df) (snd row)) (rows df) = map Inr m"
    by (simp_all add: rule_mask_iff)
  from tests have len: "length m = length (rows df)"
    by (metis length_map)
  show "columns df' = columns df" by (simp add: df')
  show "set (rows df') \<subseteq> set (rows df)" by (simp add: df' drop_rows_subset)
  have "rule_test r (columns df) (snd row) = Inr False" if "row \<in> set (rows df')" for row
  proof -
    from that have in_df: "row \<in> set (rows df)" using drop_rows_subset df' by blast
    then obtain k where k: "k < length (rows df)" "rows df ! k = row"
      by (auto simp: in_set_conv_nth)
    from tests k len have t: "rule_test r (columns df) (snd row) = Inr (m ! k)"
      by (metis (no_types, lifting) nth_map)
    have "(row, m ! k) \<in> set (zip (rows df) m)"
      using k len by (auto simp: set_zip)
    moreover have "(row, True) \<notin> set (zip (rows df) m)"
      using drop_rows_clean[OF len] that df' by simp
    ultimately have "m ! k \<noteq> True" by auto
    with t show ?thesis by simp
  qed
  with cols show "clean_for r (columns df) (rows df')"
    by (simp add: clean_for_def)
qed

lemma drop_where_clean:
  assumes "clean_for r (columns df) (rows df)"
  shows "drop_where r df = Inr df"
proof -
  let ?m = "map (\<lambda>_. False) (rows df)"
  have "rule_mask r df = Inr ?m"
    using assms by (simp add: rule_mask_iff clean_for_def)
  moreover have "drop_rows df ?m = df"
    by (rule drop_rows_none) (simp add: list_all_iff)
  ultimately show ?thesis
    by (simp add: drop_where_def bindR_def)
qed

lemma clean_for_mono: "clean_for r cs rs \<Longrightarrow> set rs' \<subseteq> set rs \<Longrightarrow> clean_for r cs rs'"
  by (auto simp: clean_for_def)

lemma drop_all_sound:
  "drop_all rs df = Inr df' \<Longrightarrow>
     columns df' = columns df \<and> set (rows df') \<subseteq> set (rows df) \<and>
     (\<forall>r \<in> set rs. clean_for r (columns df) (rows df'))"
proof (induction rs arbitrary: df)
  case Nil
  then show ?case by simp
next
  case (Cons r rs)
  then obtain df1 where d1: "drop_where r df = Inr df1" and d2: "drop_all rs df1 = Inr df'"
    by (auto simp: bindR_Inr_iff)
  note s1 = drop_where_sound[OF d1]
  from Cons.IH[OF d2] have ih: "columns df' = columns df1" "set (rows df') \<subseteq> set (rows df1)"
    "\<forall>r \<in> set rs. clean_for r (columns df1) (rows df')" by simp_all
  from s1 ih show ?case
    by (auto intro: clean_for_mono)
qed

lemma drop_all_clean:
  "\<forall>r \<in> set rs. clean_for r (columns df) (rows df) \<Longrightarrow> drop_all rs df = Inr df"
  by (induction rs) (simp_all add: drop_where_clean bindR_def)

lemma cell_of_update:
  "find_pos c cs = Some i \<Longrightarrow> a \<noteq> c \<Longrightarrow> cell_of cs (r[i := v]) a = cell_of cs r a"
proof (cases "find_pos a cs")
  case None
  then show ?thesis by (simp add: cell_of_def)
next
  case (Some k)
  assume c: "find_pos c cs = Some i" and ne: "a \<noteq> c"
  from Some c ne have "k \<noteq> i" using find_pos_inj by blast
  with Some show ?thesis by (simp add: cell_of_def)
qed

lemma rule_test_update:
  "find_pos c cs = Some i \<Longrightarrow> c \<notin> set (rule_cols q) \<Longrightarrow>
     rule_test q cs (r[i := v]) = rule_test q cs r"
  by (cases q) (auto simp: cell_of_update)

lemma replace_eq_iff:
  "replace_eq c old new df = Inr df' \<longleftrightarrow>
     (\<exists>i. find_pos c (columns df) = Some i \<and> df' = df\<lparr>rows := map (upd_row i old new) (rows df)\<rparr>)"
  by (auto simp: replace_eq_def bindR_Inr_iff col_pos_def upd_row_def split: option.splits)

lemma rule_test_upd_row:
  "find_pos c cs = Some i \<Longrightarrow> c \<notin> set (rule_cols q) \<Longrightarrow>
     rule_test q cs (snd (upd_row i old new r)) = rule_test q cs (snd r)"
  by (simp add: upd_row_def rule_test_update)

lemma clean_for_upd:
  "find_pos c cs = Some i \<Longrightarrow> c \<notin> set (rule_cols q) \<Longrightarrow> clean_for q cs rs \<Longrightarrow>
     clean_for q cs (map (upd_row i old new) rs)"
  by (auto simp: clean_for_def rule_test_upd_row)

lemma upd_row_same: "upd_row i old (Num old) r = r"
proof (cases "snd r ! i = Num old")
  case True
  then have "(snd r)[i := Num old] = snd r" by (metis list_update_id)
  with True show ?thesis by (simp add: upd_row_def)
next
  case False
  then show ?thesis by (simp add: upd_row_def)
qed

lemma map_upd_same: "map (upd_row i old (Num old)) rs = rs"
  by (induction rs) (simp_all add: upd_row_same)

lemma upd_row_absent: "snd r ! i \<noteq> Num old \<Longrightarrow> upd_row i old new r = r"
  by (simp add: upd_row_def)

lemma map_upd_absent:
  "\<forall>r \<in> set rs. snd r ! i \<noteq> Num old \<Longrightarrow> map (upd_row i old new) rs = rs"
  by (induction rs) (simp_all add: upd_row_absent)

lemma handle_bad_data_iff:
  "handle_bad_data df = Inr df' \<longleftrightarrow>
     (\<exists>F vs m S. drop_all removal_rules df = Inr F \<and> column_values F ''state'' = Inr vs \<and>
        stats_mode vs = Inr m \<and> replace_eq ''state'' 33 m F = Inr S \<and>
        replace_eq ''build_year'' 20052009 (Num 2007) S = Inr df')"
  by (auto simp: handle_bad_data_def bindR_Inr_iff)

lemma removal_rules_no_state: "\<forall>q \<in> set removal_rules. ''state'' \<notin> set (rule_cols q)"
  by (simp add: removal_rules_def)

lemma clean_build_year:
  assumes "clean_for (GtConst ''build_year'' 2018) cs rs" "find_pos ''build_year'' cs = Some j"
  shows "\<forall>r \<in> set rs. snd r ! j \<noteq> Num 20052009"
proof
  fix r assume "r \<in> set rs"
  with assms have "cell_gt (snd r ! j) (Num 2018) = Inr False"
    by (simp add: clean_for_def cell_of_def)
  then show "snd r ! j \<noteq> Num 20052009" by auto
qed


lemma stats_mode_repl:
  assumes "stats_mode vs = Inr m"
  shows "\<exists>m'. stats_mode (map (\<lambda>c. if c = Num 33 then m else c) vs) = Inr m'"
proof (cases "list_all is_Str vs")
  case True
  then have "map (\<lambda>c. if c = Num 33 then m else c) vs = vs"
    by (induction vs) auto
  with assms show ?thesis by simp
next
  case False
  with assms have ne: "vs \<noteq> []" and nostr: "\<not> list_ex is_Str vs"
    by (auto simp: stats_mode_def split: if_splits)
  from assms False ne nostr have m: "\<not> is_Str m"
    by (auto simp: stats_mode_def split: option.splits)
  let ?ws = "map (\<lambda>c. if c = Num 33 then m else c) vs"
  from nostr m have "\<not> list_ex is_Str ?ws"
    by (auto simp: list_ex_iff)
  moreover from this ne have "\<not> list_all is_Str ?ws"
    by (cases vs) (auto simp: list_ex_iff list_all_iff)
  moreover from ne have "?ws \<noteq> []" by simp
  ultimately show ?thesis
    by (simp add: stats_mode_def split: option.splits)
qed

lemma clean_all_invariant:
  assumes "\<forall>q \<in> set removal_rules. clean_for q cs rs" and "r \<in> set rs"
  shows "filter_invariant cs (snd r)"
proof -
  have t: "rule_test q cs (snd r) = Inr False" if "q \<in> set removal_rules" for q
    using assms that by (auto simp: clean_for_def)
  have by2018: "cell_gt (cell_of cs (snd r) ''build_year'') (Num 2018) = Inr False"
    using t[of "GtConst ''build_year'' 2018"] by (simp add: removal_rules_def)
  then have "cell_of cs (snd r) ''build_year'' \<noteq> Num 20052009" by auto
  moreover have "cell_gt (cell_of cs (snd r) ''life_sq'') (cell_of cs (snd r) ''full_sq'') = Inr False"
    using t[of "GtCol ''life_sq'' ''full_sq''"] by (simp add: removal_rules_def)
  moreover have "cell_gt (cell_of cs (snd r) ''kitch_sq'') (cell_of cs (snd r) ''full_sq'') = Inr False"
    using t[of "GtCol ''kitch_sq'' ''full_sq''"] by (simp add: removal_rules_def)
  moreover have "cell_gt (cell_of cs (snd r) ''floor'') (cell_of cs (snd r) ''max_floor'') = Inr False"
    using t[of "GtCol ''floor'' ''max_floor''"] by (simp add: removal_rules_def)
  moreover have "cell_le (cell_of cs (snd r) ''build_year'') (Num 1691) = Inr False"
    using t[of "LeConst ''build_year'' 1691"] by (simp add: removal_rules_def)
  moreover have "cell_of cs (snd r) ''full_sq'' \<noteq> Num 0"
    using t[of "EqConst ''full_sq'' 0"] by (simp add: removal_rules_def)
  moreover have "cell_of cs (snd r) ''full_sq'' \<noteq> Num 1"
    using t[of "EqConst ''full_sq'' 1"] by (simp add: removal_rules_def)
  moreover have "cell_of cs (snd r) ''full_sq'' \<noteq> Num 5326"
    using t[of "EqConst ''full_sq'' 5326"] by (simp add: removal_rules_def)
  moreover have "cell_of cs (snd r) ''max_floor'' \<noteq> Num 0"
    using t[of "EqConst ''max_floor'' 0"] by (simp add: removal_rules_def)
  moreover have "cell_gt (cell_of cs (snd r) ''max_floor'') (Num 57) = Inr False"
    using t[of "GtConst ''max_floor'' 57"] by (simp add: removal_rules_def)
  moreover have "cell_lt (cell_of cs (snd r) ''children_preschool'') (Num 0) = Inr False"
    using t[of "LtConst ''children_preschool'' 0"] by (simp add: removal_rules_def)
  moreover have "cell_lt (cell_of cs (snd r) ''preschool_quota'') (Num 0) = Inr False"
    using t[of "LtConst ''preschool_quota'' 0"] by (simp add: removal_rules_def)
  moreover have "cell_lt (cell_of cs (snd r) ''children_school'') (Num 0) = Inr False"
    using t[of "LtConst ''children_school'' 0"] by (simp add: removal_rules_def)
  moreover have "cell_lt (cell_of cs (snd r) ''school_quota'') (Num 0) = Inr False"
    using t[of "LtConst ''school_quota'' 0"] by (simp add: removal_rules_def)
  ultimately show ?thesis
    using by2018 by (simp add: filter_invariant_def)
qed

text \<open>What a successful run of the filter looks like.\<close>

lemma handle_bad_data_shape:
  assumes "handle_bad_data df = Inr df'"
  obtains F vs m i where
    "drop_all removal_rules df = Inr F"
    "column_values F ''state'' = Inr vs"
    "stats_mode vs = Inr m"
    "find_pos ''state'' (columns df) = Some i"
    "df' = F\<lparr>rows := map (upd_row i 33 m) (rows F)\<rparr>"
    "columns df' = columns df"
    "\<forall>q \<in> set removal_rules. clean_for q (columns df) (rows df')"
    "find_pos ''build_year'' (columns df) \<noteq> None"
proof -
  from assms obtain F vs m S where
    F: "drop_all removal_rules df = Inr F" and vs: "column_values F ''state'' = Inr vs"
    and m: "stats_mode vs = Inr m" and S: "replace_eq ''state'' 33 m F = Inr S"
    and D: "replace_eq ''build_year'' 20052009 (Num 2007) S = Inr df'"
    by (auto simp: handle_bad_data_iff)
  from drop_all_sound[OF F] have cF: "columns F = columns df"
    and clF: "\<forall>q \<in> set removal_rules. clean_for q (columns df) (rows F)" by simp_all
  from S obtain i where i: "find_pos ''state'' (columns F) = Some i"
    and S': "S = F\<lparr>rows := map (upd_row i 33 m) (rows F)\<rparr>"
    by (auto simp: replace_eq_iff)
  have clS: "\<forall>q \<in> set removal_rules. clean_for q (columns df) (rows S)"
    using clF i cF removal_rules_no_state by (simp add: S' clean_for_upd)
  from D obtain j where j: "find_pos ''build_year'' (columns S) = Some j"
    and D': "df' = S\<lparr>rows := map (upd_row j 20052009 (Num 2007)) (rows S)\<rparr>"
    by (auto simp: replace_eq_iff)
  have cS: "columns S = columns df" by (simp add: S' cF)
  have "clean_for (GtConst ''build_year'' 2018) (columns df) (rows S)"
    using clS by (simp add: removal_rules_def)
  from clean_build_year[OF this] j cS
  have "map (upd_row j 20052009 (Num 2007)) (rows S) = rows S"
    by (simp add: map_upd_absent)
  with D' have "df' = S" by simp
  with F vs m i S' cF clS j cS that show thesis by simp
qed

lemma drop_all_wf:
  assumes "drop_all rs df = Inr F" "wf_table df"
  shows "wf_table F"
  using drop_all_sound[OF assms(1)] assms(2)
  by (auto simp: wf_table_def list_all_iff)

text \<open>
  Claim C7, as the code has it. Every row that survives \<open>handle_bad_data\<close> is selected by
  none of the removal masks: not \<open>life_sq > full_sq\<close>, not \<open>kitch_sq > full_sq\<close>, not
  \<open>floor > max_floor\<close>, \<open>build_year\<close> neither \<open>\<le> 1691\<close> nor \<open>> 2018\<close>, \<open>full_sq\<close> none of
  0, 1, 5326, \<open>max_floor\<close> neither 0 nor \<open>> 57\<close>, the four school counts not negative, and
  \<open>build_year\<close> not 20052009. A surviving \<open>state\<close> is 33 only when 33 is itself the mode of
  the surviving \<open>state\<close> column.
\<close>

theorem filter_invariants:
  assumes "wf_table df" and "handle_bad_data df = Inr df'" and "r \<in> set (rows df')"
  shows "filter_invariant (columns df') (snd r) \<and>
         (cell_of (columns df') (snd r) ''state'' = Num 33 \<longrightarrow>
            bindR (column_values df' ''state'') stats_mode = Inr (Num 33))"
proof -
  from assms(2) obtain F vs m i where
    F: "drop_all removal_rules df = Inr F" and vs: "column_values F ''state'' = Inr vs"
    and m: "stats_mode vs = Inr m" and i: "find_pos ''state'' (columns df) = Some i"
    and df': "df' = F\<lparr>rows := map (upd_row i 33 m) (rows F)\<rparr>"
    and cols: "columns df' = columns df"
    and cl: "\<forall>q \<in> set removal_rules. clean_for q (columns df) (rows df')"
    by (rule handle_bad_data_shape)
  have inv: "filter_invariant (columns df') (snd r)"
    using clean_all_invariant[OF cl assms(3)] cols by simp
  have "bindR (column_values df' ''state'') stats_mode = Inr (Num 33)"
    if s33: "cell_of (columns df') (snd r) ''state'' = Num 33"
  proof -
    from assms(3) df' obtain r0 where r0: "r0 \<in> set (rows F)" "r = upd_row i 33 m r0"
      by auto
    have "wf_table F" using drop_all_wf[OF F assms(1)] .
    with r0 drop_all_sound[OF F] have "length (snd r0) = length (columns df)"
      by (auto simp: wf_table_def list_all_iff)
    with i have il: "i < length (snd r0)" by (simp add: find_pos_less)
    from s33 cols i have "snd r ! i = Num 33" by (simp add: cell_of_def)
    with r0 il have "m = Num 33"
      by (auto simp: upd_row_def split: if_splits)
    then have "df' = F" by (simp add: df' map_upd_same)
    with vs m \<open>m = Num 33\<close> show ?thesis by (simp add: bindR_def)
  qed
  with inv show ?thesis by simp
qed

text \<open>
  Claim C6. The filter is idempotent: run on its own output it succeeds and returns that
  output, so no further row is removed and no cell changes.
\<close>

theorem filter_idempotent:
  assumes "wf_table df" and "handle_bad_data df = Inr df'"
  shows "handle_bad_data df' = Inr df'"
proof -
  from assms(2) obtain F vs m i where
    F: "drop_all removal_rules df = Inr F" and vs: "column_values F ''state'' = Inr vs"
    and m: "stats_mode vs = Inr m" and i: "find_pos ''state'' (columns df) = Some i"
    and df': "df' = F\<lparr>rows := map (upd_row i 33 m) (rows F)\<rparr>"
    and cols: "columns df' = columns df"
    and cl: "\<forall>q \<in> set removal_rules. clean_for q (columns df) (rows df')"
    and byc: "find_pos ''build_year'' (columns df) \<noteq> None"
    by (rule handle_bad_data_shape)
  from cl cols have d: "drop_all removal_rules df' = Inr df'"
    by (simp add: drop_all_clean)
  have cF: "columns F = columns df" using drop_all_sound[OF F] by simp
  from vs i cF have vs_eq: "vs = map (\<lambda>r. snd r ! i) (rows F)"
    by (auto simp: column_values_def col_pos_def bindR_def)
  have wfF: "wf_table F" using drop_all_wf[OF F assms(1)] .
  have len: "i < length (snd r)" if "r \<in> set (rows F)" for r
    using wfF that i cF find_pos_less[OF i] by (auto simp: wf_table_def list_all_iff)
  let ?vs' = "map (\<lambda>c. if c = Num 33 then m else c) vs"
  have "map (\<lambda>r. snd r ! i) (map (upd_row i 33 m) (rows F)) = ?vs'"
    using len by (auto simp: vs_eq upd_row_def)
  with i cols df' have col': "column_values df' ''state'' = Inr ?vs'"
    by (simp add: column_values_def col_pos_def bindR_def)
  from stats_mode_repl[OF m] obtain m' where m': "stats_mode ?vs' = Inr m'" by blast
  have rep1: "map (upd_row i 33 m') (rows df') = rows df'"
  proof (cases "m = Num 33")
    case True
    then have "?vs' = vs" by (induction vs) auto
    with m m' True have "m' = Num 33" by simp
    then show ?thesis by (simp add: map_upd_same)
  next
    case False
    have "snd r ! i \<noteq> Num 33" if "r \<in> set (rows df')" for r
    proof -
      from that df' obtain r0 where "r0 \<in> set (rows F)" "r = upd_row i 33 m r0" by auto
      with len[of r0] False show ?thesis by (auto simp: upd_row_def)
    qed
    then show ?thesis by (simp add: map_upd_absent)
  qed
  from i cols have s: "replace_eq ''state'' 33 m' df' = Inr df'"
    by (simp add: replace_eq_iff rep1)
  from byc obtain j where j: "find_pos ''build_year'' (columns df) = Some j" by auto
  have "clean_for (GtConst ''build_year'' 2018) (columns df) (rows df')"
    using cl by (simp add: removal_rules_def)
  from clean_build_year[OF this j]
  have "map (upd_row j 20052009 (Num 2007)) (rows df') = rows df'"
    by (simp add: map_upd_absent)
  with j cols have b: "replace_eq ''build_year'' 20052009 (Num 2007) df' = Inr df'"
    by (simp add: replace_eq_iff)
  from d col' m' s b show ?thesis
    by (simp add: handle_bad_data_def bindR_def)
qed


theorem filter_invariants_witness:
  "wf_table mode33_example \<and>
   handle_bad_data mode33_example = Inr mode33_example_cleaned \<and>
   (Num 0, [Num 30, Num 50, Num 8, Num 2000, Num 9, Num 3, Num 0, Num 0, Num 0, Num 0, Num 33])
     \<in> set (rows mode33_example_cleaned) \<and>
   filter_invariant (columns mode33_example_cleaned)
     [Num 30, Num 50, Num 8, Num 2000, Num 9, Num 3, Num 0, Num 0, Num 0, Num 0, Num 33] \<and>
   bindR (column_values mode33_example_cleaned ''state'') stats_mode = Inr (Num 33)"
proof -
  have a: "wf_table mode33_example" by code_simp
  have b: "handle_bad_data mode33_example = Inr mode33_example_cleaned" by code_simp
  have c: "(Num 0, [Num 30, Num 50, Num 8, Num 2000, Num 9, Num 3, Num 0, Num 0, Num 0, Num 0, Num 33])
     \<in> set (rows mode33_example_cleaned)"
    by (simp add: mode33_example_cleaned_def)
  have d: "cell_of (columns mode33_example_cleaned)
     [Num 30, Num 50, Num 8, Num 2000, Num 9, Num 3, Num 0, Num 0, Num 0, Num 0, Num 33] ''state'' = Num 33"
    by code_simp
  from filter_invariants[OF a b c] a b c d show ?thesis by simp
qed

text \<open>
  The claim as the spec words it fails on a table whose only row has a negative
  \<open>max_floor\<close> and the state 33: no mask selects the row, 33 is the mode of the state
  column, and the filter returns the table as it is.
\<close>

theorem filter_invariants_counterexample:
  "handle_bad_data
     \<lparr>columns = filter_cols,
      rows = [(Num 0, [Num 30, Num 50, Num 8, Num 2000, Num (-1), Num (-1), Num 0, Num 0, Num 0, Num 0, Num 33])]\<rparr>
   = Inr
     \<lparr>columns = filter_cols,
      rows = [(Num 0, [Num 30, Num 50, Num 8, Num 2000, Num (-1), Num (-1), Num 0, Num 0, Num 0, Num 0, Num 33])]\<rparr> \<and>
   cell_of filter_cols
     [Num 30, Num 50, Num 8, Num 2000, Num (-1), Num (-1), Num 0, Num 0, Num 0, Num 0, Num 33] ''max_floor''
     = Num (-1) \<and>
   cell_of filter_cols
     [Num 30, Num 50, Num 8, Num 2000, Num (-1), Num (-1), Num 0, Num 0, Num 0, Num 0, Num 33] ''state''
     = Num 33 \<and>
   \<not> filter_invariant_claimed filter_cols
     [Num 30, Num 50, Num 8, Num 2000, Num (-1), Num (-1), Num 0, Num 0, Num 0, Num 0, Num 33]"
  by code_simp

theorem filter_idempotent_witness:
  "wf_table survey_example \<and>
   handle_bad_data survey_example = Inr survey_example_cleaned \<and>
   handle_bad_data survey_example_cleaned = Inr survey_example_cleaned"
proof -
  have a: "wf_table survey_example" by code_simp
  have b: "handle_bad_data survey_example = Inr survey_example_cleaned" by code_simp
  from filter_idempotent[OF a b] a b show ?thesis by simp
qed

section \<open>Properties of the Outlier Truncator and the Categorical Encoder\<close>

lemma truncate_col_skips: "truncate_col col df = Inr df"
  by (cases col) (auto simp: truncate_col_def in_columns_def)

lemma truncate_loop_skips: "truncate_loop cs df = Inr df"
  by (induction cs) (simp_all add: truncate_col_skips bindR_def)

lemma truncate_extreme_values_skips: "truncate_extreme_values df = Inr df"
  by (simp add: truncate_extreme_values_def truncate_loop_skips)

text \<open>
  Claim C1 against the code. The guard of the loop is false for every triple, so the
  function returns every table as it is. On a \<open>full_sq\<close> column with the values 0, 50, 100
  and the sentinel -99 the percentiles 0.5 and 99.5 of the values without the sentinel are
  0.5 and 99.5; the body of the loop would clip the column to 0.5, 50, 99.5, 0.5, but the
  function leaves 0, 100 and -99 in it.
\<close>

theorem truncate_leaves_outliers:
  "truncate_extreme_values
     \<lparr>columns = [''full_sq''],
      rows = [(Num 0, [Num 0]), (Num 1, [Num 50]), (Num 2, [Num 100]), (Num 3, [Num (- 99)])]\<rparr>
   = Inr
     \<lparr>columns = [''full_sq''],
      rows = [(Num 0, [Num 0]), (Num 1, [Num 50]), (Num 2, [Num 100]), (Num 3, [Num (- 99)])]\<rparr> \<and>
   np_percentile [Num 0, Num 50, Num 100] (199 / 2) = Inr (Num (199 / 2)) \<and>
   np_percentile [Num 0, Num 50, Num 100] (1 / 2) = Inr (Num (1 / 2)) \<and>
   truncate_body (''full_sq'', 199 / 2, 1 / 2)
     \<lparr>columns = [''full_sq''],
      rows = [(Num 0, [Num 0]), (Num 1, [Num 50]), (Num 2, [Num 100]), (Num 3, [Num (- 99)])]\<rparr>
   = Inr
     \<lparr>columns = [''full_sq''],
      rows = [(Num 0, [Num (1 / 2)]), (Num 1, [Num 50]), (Num 2, [Num (199 / 2)]),
              (Num 3, [Num (1 / 2)])]\<rparr>"
  by code_simp

lemma fit_twice: "LabelEncoder_fit (y @ y) = LabelEncoder_fit y"
proof -
  have "[x\<leftarrow>y. x \<notin> set y] = []" by (simp add: filter_empty_conv)
  then have "remdups (y @ y) = remdups y" by (simp add: remdups_append)
  then show ?thesis by (simp add: LabelEncoder_fit_def)
qed

lemma encode_column_once_eq: "encode_column fmt f df = encode_column_once fmt f df"
  by (simp add: encode_column_def encode_column_once_def fit_twice cong: if_cong)

lemma encode_loop_once_eq: "encode_loop fmt fs df = encode_loop_once fmt fs df"
  by (induction fs arbitrary: df) (simp_all add: encode_column_once_eq bindR_def split: sum.splits)

text \<open>
  Claim C10. Fitting on the list of values followed by itself gives the same classes as
  fitting on the list once, and so the encoder returns the same result on every table.
\<close>

theorem fit_on_duplicated_list:
  "LabelEncoder_fit (y @ y) = LabelEncoder_fit y \<and>
   convert_categorical_to_numerical fmt df = convert_fit_once fmt df"
  by (simp add: fit_twice convert_categorical_to_numerical_def convert_fit_once_def
      encode_loop_once_eq)

lemma find_pos_distinct_nth:
  "distinct cs \<Longrightarrow> k < length cs \<Longrightarrow> find_pos (cs ! k) cs = Some k"
proof (induction cs arbitrary: k)
  case Nil
  then show ?case by simp
next
  case (Cons c cs)
  show ?case
  proof (cases k)
    case 0
    then show ?thesis by simp
  next
    case (Suc n)
    with Cons.prems have "c \<noteq> cs ! n" "find_pos (cs ! n) cs = Some n"
      using Cons.IH by auto
    with Suc show ?thesis by simp
  qed
qed

lemma transform_fit:
  "LabelEncoder_transform (LabelEncoder_fit y) y = Inr (map (class_index (LabelEncoder_fit y)) y)"
proof -
  have "find_pos s (LabelEncoder_fit y) = Some (class_index (LabelEncoder_fit y) s)"
    if "s \<in> set y" for s
  proof -
    from that have "s \<in> set (LabelEncoder_fit y)" by (simp add: LabelEncoder_fit_def)
    then obtain k where "find_pos s (LabelEncoder_fit y) = Some k"
      using find_pos_None_iff[of s "LabelEncoder_fit y"] by auto
    then show ?thesis by (simp add: class_index_def)
  qed
  then have "map (\<lambda>s. case find_pos s (LabelEncoder_fit y) of None \<Rightarrow> Inl ValueError | Some k \<Rightarrow> Inr k) y
      = map Inr (map (class_index (LabelEncoder_fit y)) y)"
    by simp
  then show ?thesis
    by (simp add: LabelEncoder_transform_def collect_map_Inr_iff)
qed

lemma fit_props:
  "distinct (LabelEncoder_fit y)" "set (LabelEncoder_fit y) = set y"
  "sorted_wrt (<) (LabelEncoder_fit y)" "length (LabelEncoder_fit y) = card (set y)"
proof -
  show d: "distinct (LabelEncoder_fit y)" by (simp add: LabelEncoder_fit_def)
  show s: "set (LabelEncoder_fit y) = set y" by (simp add: LabelEncoder_fit_def)
  show "sorted_wrt (<) (LabelEncoder_fit y)"
    by (simp add: LabelEncoder_fit_def strict_sorted_iff)
  from d s show "length (LabelEncoder_fit y) = card (set y)"
    by (metis distinct_card)
qed

lemma class_index_less:
  "s \<in> set y \<Longrightarrow> class_index (LabelEncoder_fit y) s < card (set y)"
proof -
  assume "s \<in> set y"
  then obtain k where k: "find_pos s (LabelEncoder_fit y) = Some k"
    using find_pos_None_iff[of s "LabelEncoder_fit y"] fit_props(2)[of y] by auto
  from find_pos_less[OF k] k show ?thesis
    by (simp add: class_index_def fit_props(4))
qed

lemma class_index_nth:
  "s \<in> set y \<Longrightarrow> LabelEncoder_fit y ! class_index (LabelEncoder_fit y) s = s"
proof -
  assume "s \<in> set y"
  then obtain k where k: "find_pos s (LabelEncoder_fit y) = Some k"
    using find_pos_None_iff[of s "LabelEncoder_fit y"] fit_props(2)[of y] by auto
  from find_pos_nth[OF k] k show ?thesis
    by (simp add: class_index_def)
qed

lemma class_index_mono:
  assumes "s \<in> set y" "t \<in> set y"
  shows "class_index (LabelEncoder_fit y) s < class_index (LabelEncoder_fit y) t \<longleftrightarrow> s < t"
proof -
  let ?cs = "LabelEncoder_fit y"
  let ?i = "class_index ?cs s" and ?j = "class_index ?cs t"
  have li: "?i < length ?cs" and lj: "?j < length ?cs"
    using assms class_index_less by (simp_all add: fit_props(4))
  have ni: "?cs ! ?i = s" and nj: "?cs ! ?j = t"
    using assms class_index_nth by simp_all
  have up: "?cs ! a < ?cs ! b" if "a < b" "b < length ?cs" for a b
    using that fit_props(3)[of y] by (simp add: sorted_wrt_nth_less)
  show ?thesis
  proof
    assume "?i < ?j"
    from up[OF this lj] ni nj show "s < t" by simp
  next
    assume st: "s < t"
    show "?i < ?j"
    proof (rule ccontr)
      assume "\<not> ?i < ?j"
      then consider "?j < ?i" | "?j = ?i" by linarith
      then show False
      proof cases
        case 1
        from up[OF 1 li] ni nj st show False by simp
      next
        case 2
        with ni nj st show False by simp
      qed
    qed
  qed
qed

lemma class_index_onto:
  "class_index (LabelEncoder_fit y) ` set y = {..<card (set y)}"
proof (intro equalityI subsetI)
  fix k assume "k \<in> class_index (LabelEncoder_fit y) ` set y"
  then show "k \<in> {..<card (set y)}" using class_index_less by auto
next
  fix k assume "k \<in> {..<card (set y)}"
  then have k: "k < length (LabelEncoder_fit y)" by (simp add: fit_props(4))
  then have "LabelEncoder_fit y ! k \<in> set y"
    using fit_props(2)[of y] nth_mem by blast
  moreover have "class_index (LabelEncoder_fit y) (LabelEncoder_fit y ! k) = k"
    using find_pos_distinct_nth[OF fit_props(1) k] by (simp add: class_index_def)
  ultimately show "k \<in> class_index (LabelEncoder_fit y) ` set y" by force
qed

lemma column_values_pos:
  "find_pos c (columns df) = Some i \<Longrightarrow> column_values df c = Inr (column_at i df)"
  by (simp add: column_values_def col_pos_def bindR_def column_at_def)

lemma wf_row_length:
  "wf_table df \<Longrightarrow> r \<in> set (rows df) \<Longrightarrow> length (snd r) = length (columns df)"
  by (auto simp: wf_table_def list_all_iff)

lemma set_column_columns [simp]: "columns (set_column i vs df) = columns df"
  by (simp add: set_column_def)

lemma set_column_labels:
  "length vs = length (rows df) \<Longrightarrow> map fst (rows (set_column i vs df)) = map fst (rows df)"
  by (rule nth_equalityI) (simp_all add: set_column_def)

lemma set_column_length:
  "length vs = length (rows df) \<Longrightarrow> length (rows (set_column i vs df)) = length (rows df)"
  by (simp add: set_column_def)

lemma set_column_nth:
  "length vs = length (rows df) \<Longrightarrow> k < length (rows df) \<Longrightarrow>
     rows (set_column i vs df) ! k = (fst (rows df ! k), (snd (rows df ! k))[i := vs ! k])"
  by (simp add: set_column_def)

lemma set_column_wf:
  assumes "wf_table df" "length vs = length (rows df)"
  shows "wf_table (set_column i vs df)"
proof -
  have "length (snd r) = length (columns df)" if "r \<in> set (rows (set_column i vs df))" for r
  proof -
    from that obtain k where k: "k < length (rows df)" "r = rows (set_column i vs df) ! k"
      by (metis in_set_conv_nth set_column_length[OF assms(2)])
    with set_column_nth[OF assms(2)] have "r = (fst (rows df ! k), (snd (rows df ! k))[i := vs ! k])"
      by simp
    then have "length (snd r) = length (snd (rows df ! k))" by simp
    with wf_row_length[OF assms(1), of "rows df ! k"] k show ?thesis by simp
  qed
  with assms(1) show ?thesis by (simp add: wf_table_def list_all_iff)
qed

lemma set_column_at:
  assumes "wf_table df" "length vs = length (rows df)" "i < length (columns df)"
  shows "column_at j (set_column i vs df) = (if j = i then vs else column_at j df)"
proof (rule nth_equalityI)
  show "length (column_at j (set_column i vs df)) = length (if j = i then vs else column_at j df)"
    using assms(2) by (simp add: column_at_def set_column_length)
next
  fix k assume "k < length (column_at j (set_column i vs df))"
  then have k: "k < length (rows df)"
    using assms(2) by (simp add: column_at_def set_column_length)
  then have "length (snd (rows df ! k)) = length (columns df)"
    using wf_row_length[OF assms(1)] by simp
  with assms(3) have "i < length (snd (rows df ! k))" by simp
  with k assms(2) show "column_at j (set_column i vs df) ! k = (if j = i then vs else column_at j df) ! k"
    by (simp add: column_at_def set_column_length set_column_nth)
qed

lemma set_column_same:
  "set_column i (column_at i df) df = df"
proof -
  have "map (\<lambda>p. (fst (fst p), (snd (fst p))[i := snd p])) (zip rs (map (\<lambda>r. snd r ! i) rs)) = rs" for rs :: "(cell \<times> cell list) list"
    by (induction rs) simp_all
  then show ?thesis by (simp add: set_column_def column_at_def)
qed

lemma encoded_column_length [simp]: "length (encoded_column fmt c vals) = length vals"
  by (simp add: encoded_column_def)

lemma encode_column_result:
  assumes "find_pos f (columns df) = Some i"
  shows "encode_column fmt f df = Inr (set_column i (encoded_column fmt f (column_at i df)) df)"
proof (cases "list_ex is_Str (column_at i df) \<and> f \<noteq> ''timestamp''")
  case True
  then show ?thesis
    using assms
    by (simp add: encode_column_def column_values_pos fit_twice transform_fit bindR_def
        col_pos_def encoded_column_def comp_def)
next
  case False
  then show ?thesis
    using assms
    by (auto simp: encode_column_def column_values_pos bindR_def encoded_column_def set_column_same)
qed

lemma encode_loop_result:
  assumes "wf_table df" "distinct fs" "set fs \<subseteq> set (columns df)"
  shows "\<exists>df'. encode_loop fmt fs df = Inr df' \<and> wf_table df' \<and> columns df' = columns df \<and>
           map fst (rows df') = map fst (rows df) \<and>
           (\<forall>c i. find_pos c (columns df) = Some i \<longrightarrow>
              column_at i df' = (if c \<in> set fs then encoded_column fmt c (column_at i df)
                                 else column_at i df))"
  using assms
proof (induction fs arbitrary: df)
  case Nil
  then show ?case by simp
next
  case (Cons f fs)
  from Cons.prems(3) obtain i where i: "find_pos f (columns df) = Some i"
    using find_pos_None_iff[of f "columns df"] by auto
  let ?vs = "encoded_column fmt f (column_at i df)"
  let ?df1 = "set_column i ?vs df"
  have len: "length ?vs = length (rows df)" by (simp add: column_at_def)
  have step: "encode_column fmt f df = Inr ?df1" by (rule encode_column_result[OF i])
  have wf1: "wf_table ?df1" by (rule set_column_wf[OF Cons.prems(1) len])
  from Cons.prems have "distinct fs" "set fs \<subseteq> set (columns ?df1)" by simp_all
  from Cons.IH[OF wf1 this] obtain df' where
    run: "encode_loop fmt fs ?df1 = Inr df'" and wf': "wf_table df'"
    and cols: "columns df' = columns ?df1"
    and labels: "map fst (rows df') = map fst (rows ?df1)"
    and at: "\<And>c j. find_pos c (columns ?df1) = Some j \<Longrightarrow>
              column_at j df' = (if c \<in> set fs then encoded_column fmt c (column_at j ?df1)
                                 else column_at j ?df1)"
    by blast
  have il: "i < length (columns df)" by (rule find_pos_less[OF i])
  have at1: "column_at j ?df1 = (if j = i then ?vs else column_at j df)" for j
    by (rule set_column_at[OF Cons.prems(1) len il])
  have "column_at j df' = (if c \<in> set (f # fs) then encoded_column fmt c (column_at j df)
                           else column_at j df)"
    if c: "find_pos c (columns df) = Some j" for c j
  proof (cases "c = f")
    case True
    with c i have "j = i" by simp
    moreover from True Cons.prems(2) have "c \<notin> set fs" by simp
    ultimately show ?thesis using at[of c j] c at1[of i] True by simp
  next
    case False
    with c i have "j \<noteq> i" using find_pos_inj by blast
    with at[of c j] c at1[of j] False show ?thesis by simp
  qed
  with run step wf' cols labels set_column_labels[OF len, of i] show ?case
    by (simp add: bindR_def)
qed

lemma encoded_column_as:
  "encoded_as fmt c vals (encoded_column fmt c vals)"
proof (cases "list_ex is_Str vals \<and> c \<noteq> ''timestamp''")
  case False
  then show ?thesis by (auto simp: encoded_as_def encoded_column_def)
next
  case True
  let ?y = "map (astype_str fmt) vals"
  let ?codes = "map (class_index (LabelEncoder_fit ?y)) ?y"
  have 1: "encoded_column fmt c vals = map (\<lambda>k. Num (of_nat k)) ?codes"
    using True by (simp add: encoded_column_def)
  have 2: "length ?codes = length vals" by simp
  have 3: "set ?codes = {..<card (set ?y)}"
    using class_index_onto[of ?y] by (simp add: image_image)
  have 4: "(?codes ! i < ?codes ! j) = (astype_str fmt (vals ! i) < astype_str fmt (vals ! j))"
    if "i < length vals" "j < length vals" for i j
    using that class_index_mono[of "?y ! i" ?y "?y ! j"] by simp
  from 1 2 3 4 have "\<exists>codes. encoded_column fmt c vals = map (\<lambda>k. Num (of_nat k)) codes \<and>
      length codes = length vals \<and> set codes = {..<card (set ?y)} \<and>
      (\<forall>i<length vals. \<forall>j<length vals.
         (codes ! i < codes ! j) = (astype_str fmt (vals ! i) < astype_str fmt (vals ! j)))"
    by blast
  with True show ?thesis by (simp add: encoded_as_def)
qed

text \<open>
  Claim C8. On every table the encoder succeeds, keeps the column names and the row
  labels, and leaves every column encoded in the sense of \<open>encoded_as\<close>.
\<close>

theorem encoder_codes:
  assumes "wf_table df"
  shows "\<exists>df'. convert_categorical_to_numerical fmt df = Inr df' \<and>
           columns df' = columns df \<and> map fst (rows df') = map fst (rows df) \<and>
           (\<forall>c \<in> set (columns df). encoded_as fmt c (the_column df c) (the_column df' c))"
proof -
  from assms have "distinct (columns df)" by (simp add: wf_table_def)
  from encode_loop_result[OF assms this, of fmt] obtain df' where
    run: "encode_loop fmt (columns df) df = Inr df'"
    and cols: "columns df' = columns df"
    and labels: "map fst (rows df') = map fst (rows df)"
    and at: "\<And>c i. find_pos c (columns df) = Some i \<Longrightarrow>
              column_at i df' = (if c \<in> set (columns df) then encoded_column fmt c (column_at i df)
                                 else column_at i df)"
    by blast
  have "encoded_as fmt c (the_column df c) (the_column df' c)" if "c \<in> set (columns df)" for c
  proof -
    from that obtain i where i: "find_pos c (columns df) = Some i"
      using find_pos_None_iff[of c "columns df"] by auto
    with at[OF i] that cols show ?thesis
      by (simp add: the_column_def encoded_column_as)
  qed
  with run cols labels show ?thesis
    by (auto simp: convert_categorical_to_numerical_def)
qed

theorem encoder_codes_witness:
  "wf_table sales_example \<and>
   convert_categorical_to_numerical (\<lambda>x. ''0'') sales_example = Inr sales_example_encoded \<and>
   (\<exists>df'. convert_categorical_to_numerical (\<lambda>x. ''0'') sales_example = Inr df' \<and>
      columns df' = columns sales_example \<and>
      map fst (rows df') = map fst (rows sales_example) \<and>
      (\<forall>c \<in> set (columns sales_example).
         encoded_as (\<lambda>x. ''0'') c (the_column sales_example c) (the_column df' c)))"
proof -
  have a: "wf_table sales_example" by code_simp
  have b: "convert_categorical_to_numerical (\<lambda>x. ''0'') sales_example = Inr sales_example_encoded"
    by code_simp
  from encoder_codes[OF a, of "\<lambda>x. ''0''"] a b show ?thesis by simp
qed

section \<open>Properties of the Imputer\<close>

lemma filter_all_length:
  assumes "length (filter P xs) = length xs"
  shows "filter P xs = xs"
proof -
  have "P x" if "x \<in> set xs" for x
  proof (rule ccontr)
    assume "\<not> P x"
    with that have "length (filter P xs) < length xs" by (rule length_filter_less)
    with assms show False by simp
  qed
  then show ?thesis by simp
qed

lemma knn_dataframe:
  assumes knn: "KNNImputer_fit_transform fill X = Inr arr"
    and frame: "DataFrame arr names = Inr new"
    and rect: "\<forall>row \<in> set X. length row = length names"
  shows "columns new = names"
    and "length (rows new) = length X"
    and "X \<noteq> []"
    and "\<not> list_ex (list_ex is_Str) X"
    and "\<forall>j < length names. observed_col X j"
    and "\<forall>k < length X. rows new ! k = (Num (of_nat k), map (filled fill X k) [0..<length names])"
proof -
  let ?valid = "filter (observed_col X) [0..<length (hd X)]"
  from knn have ne: "X \<noteq> []" and nostr: "\<not> list_ex (list_ex is_Str) X"
    and arr: "arr = map (impute_row fill X ?valid) (enumerate 0 X)"
    by (auto simp: KNNImputer_fit_transform_def split: if_splits)
  from ne rect have hd: "length (hd X) = length names" by simp
  from frame have shape: "list_all (\<lambda>row. length row = length names) arr"
    and new: "new = \<lparr>columns = names, rows = map (\<lambda>p. (Num (of_nat (fst p)), snd p)) (enumerate 0 arr)\<rparr>"
    by (auto simp: DataFrame_def split: if_splits)
  from ne have "impute_row fill X ?valid (0, hd X) \<in> set arr"
    by (cases X) (auto simp: arr)
  with shape have "length ?valid = length names"
    by (auto simp: list_all_iff impute_row_def)
  with hd have valid: "?valid = [0..<length names]"
    using filter_all_length[of "observed_col X" "[0..<length (hd X)]"] by simp
  show "columns new = names" by (simp add: new)
  show "length (rows new) = length X" by (simp add: new arr)
  show "X \<noteq> []" by (rule ne)
  show "\<not> list_ex (list_ex is_Str) X" by (rule nostr)
  show "\<forall>j < length names. observed_col X j"
  proof (intro allI impI)
    fix j assume "j < length names"
    then have "j \<in> set ?valid" by (simp only: valid) simp
    then show "observed_col X j" by simp
  qed
  show "\<forall>k < length X. rows new ! k = (Num (of_nat k), map (filled fill X k) [0..<length names])"
  proof (intro allI impI)
    fix k assume k: "k < length X"
    then have "arr ! k = impute_row fill X [0..<length names] (k, X ! k)"
      by (simp add: arr valid nth_enumerate_eq)
    with k show "rows new ! k = (Num (of_nat k), map (filled fill X k) [0..<length names])"
      by (simp add: new arr nth_enumerate_eq impute_row_def filled_def)
  qed
qed

lemma filled_observed: "X ! k ! j \<noteq> NaN \<Longrightarrow> filled fill X k j = X ! k ! j"
  by (simp add: filled_def)


lemma filled_ne: "filled fill X k j \<noteq> NaN"
  by (simp add: filled_def)

lemma the_column_nth:
  "find_pos c (columns df) = Some j \<Longrightarrow> k < length (rows df) \<Longrightarrow>
     the_column df c ! k = snd (rows df ! k) ! j"
  by (simp add: the_column_def column_at_def)

lemma the_column_length:
  "find_pos c (columns df) = Some j \<Longrightarrow> length (the_column df c) = length (rows df)"
  by (simp add: the_column_def column_at_def)

lemma find_pos_mem: "c \<in> set cs \<Longrightarrow> \<exists>j. find_pos c cs = Some j"
  using find_pos_None_iff[of c cs] by auto

text \<open>The macro variant, row by row.\<close>

lemma impute_macro_rows:
  assumes run: "impute_missing_values_macro fill df = Inr dm" and wf: "wf_table df"
  shows "columns dm = columns df"
    and "length (rows dm) = length (rows df)"
    and "\<forall>k < length (rows df). rows dm ! k =
           (fst (rows df ! k), map (filled fill (map snd (rows df)) k) [0..<length (columns df)])"
proof -
  let ?X = "map snd (rows df)"
  from run obtain arr new where knn: "KNNImputer_fit_transform fill ?X = Inr arr"
    and frame: "DataFrame arr (columns df) = Inr new"
    and dm: "dm = new\<lparr>rows := map (\<lambda>p. (snd p, snd (fst p))) (zip (rows new) (map fst (rows df)))\<rparr>"
    by (auto simp: impute_missing_values_macro_def bindR_Inr_iff)
  have rect: "\<forall>row \<in> set ?X. length row = length (columns df)"
    using wf by (auto simp: wf_table_def list_all_iff)
  note kd = knn_dataframe[OF knn frame rect]
  from kd(2) have len: "length (rows new) = length (rows df)" by simp
  show "columns dm = columns df" using kd(1) by (simp add: dm)
  show "length (rows dm) = length (rows df)" using len by (simp add: dm)
  show "\<forall>k < length (rows df). rows dm ! k =
           (fst (rows df ! k), map (filled fill ?X k) [0..<length (columns df)])"
    using kd(6) len by (simp add: dm)
qed

lemma impute_macro_cell:
  assumes run: "impute_missing_values_macro fill df = Inr dm" and wf: "wf_table df"
    and c: "find_pos c (columns df) = Some j" and k: "k < length (rows df)"
  shows "the_column dm c ! k = filled fill (map snd (rows df)) k j"
proof -
  note r = impute_macro_rows[OF run wf]
  from c have "j < length (columns df)" by (rule find_pos_less)
  with r k c show ?thesis
    by (simp add: the_column_nth)
qed

lemma impute_macro_post:
  assumes run: "impute_missing_values_macro fill df = Inr dm" and wf: "wf_table df"
  shows "columns dm = columns df \<and> map fst (rows dm) = map fst (rows df) \<and>
         (\<forall>c \<in> set (columns dm). NaN \<notin> set (the_column dm c)) \<and>
         (\<forall>c \<in> set (columns df). \<forall>k < length (rows df).
            the_column df c ! k \<noteq> NaN \<longrightarrow> the_column dm c ! k = the_column df c ! k)"
proof -
  note r = impute_macro_rows[OF run wf]
  have labels: "map fst (rows dm) = map fst (rows df)"
    by (rule nth_equalityI) (use r in simp_all)
  have nomiss: "NaN \<notin> set (the_column dm c)" if "c \<in> set (columns dm)" for c
  proof
    assume "NaN \<in> set (the_column dm c)"
    from that r(1) obtain j where j: "find_pos c (columns df) = Some j"
      using find_pos_mem by fastforce
    with r(1) have "length (the_column dm c) = length (rows dm)"
      by (simp add: the_column_length)
    with \<open>NaN \<in> set (the_column dm c)\<close> r(2) obtain k
      where "k < length (rows df)" "the_column dm c ! k = NaN"
      by (metis in_set_conv_nth)
    with impute_macro_cell[OF run wf j] filled_ne show False by metis
  qed
  have keep: "the_column dm c ! k = the_column df c ! k"
    if "c \<in> set (columns df)" "k < length (rows df)" "the_column df c ! k \<noteq> NaN" for c k
  proof -
    from that(1) obtain j where j: "find_pos c (columns df) = Some j"
      using find_pos_mem by fastforce
    from that(2,3) j have "map snd (rows df) ! k ! j \<noteq> NaN"
      by (simp add: the_column_nth)
    then have "filled fill (map snd (rows df)) k j = snd (rows df ! k) ! j"
      using that(2) by (simp add: filled_observed)
    with impute_macro_cell[OF run wf j that(2)] j that(2) show ?thesis
      by (simp add: the_column_nth)
  qed
  from r(1) labels nomiss keep show ?thesis by blast
qed

lemma length_drop_nth: "t < length xs \<Longrightarrow> length (drop_nth t xs) = length xs - 1"
  by (simp add: drop_nth_def)

lemma nth_drop_nth:
  "t < length xs \<Longrightarrow> j < length xs - 1 \<Longrightarrow>
     drop_nth t xs ! j = xs ! (if j < t then j else Suc j)"
  by (simp add: drop_nth_def nth_append min_def)

lemma drop_nth_filter:
  assumes "distinct xs" "t < length xs"
  shows "drop_nth t xs = filter (\<lambda>x. x \<noteq> xs ! t) xs"
proof -
  have xs: "xs = take t xs @ xs ! t # drop (Suc t) xs"
    using assms(2) by (simp add: id_take_nth_drop)
  with assms(1) have d: "distinct (take t xs @ xs ! t # drop (Suc t) xs)" by simp
  then have a: "xs ! t \<notin> set (take t xs)" and b: "xs ! t \<notin> set (drop (Suc t) xs)" by auto
  from a have fa: "filter (\<lambda>x. x \<noteq> xs ! t) (take t xs) = take t xs"
    by (auto simp: filter_id_conv)
  from b have fb: "filter (\<lambda>x. x \<noteq> xs ! t) (drop (Suc t) xs) = drop (Suc t) xs"
    by (auto simp: filter_id_conv)
  have "filter (\<lambda>x. x \<noteq> xs ! t) (take t xs @ xs ! t # drop (Suc t) xs)
      = take t xs @ drop (Suc t) xs"
    by (simp add: fa fb)
  with xs show ?thesis by (simp add: drop_nth_def)
qed

lemma find_pos_append_found:
  "find_pos c xs = Some i \<Longrightarrow> find_pos c (xs @ ys) = Some i"
  by (induction xs arbitrary: i) (auto split: if_splits)

lemma find_pos_snoc_absent:
  "find_pos c xs = None \<Longrightarrow> find_pos c (xs @ [c]) = Some (length xs)"
  by (induction xs) (auto split: if_splits)

lemma find_pos_drop_nth:
  assumes d: "distinct cs" and t: "find_pos ts cs = Some t" and j: "find_pos c cs = Some j"
    and ne: "c \<noteq> ts"
  shows "\<exists>j'. find_pos c (drop_nth t cs) = Some j' \<and> j' < length cs - 1 \<and>
              j = (if j' < t then j' else Suc j')"
proof -
  from t have tl: "t < length cs" and tn: "cs ! t = ts" by (simp_all add: find_pos_less find_pos_nth)
  from j have jl: "j < length cs" and jn: "cs ! j = c" by (simp_all add: find_pos_less find_pos_nth)
  from ne tn jn have jt: "j \<noteq> t" by auto
  define j' where "j' = (if j < t then j else j - 1)"
  have j'l: "j' < length cs - 1" using jl tl jt by (auto simp: j'_def)
  have jeq: "j = (if j' < t then j' else Suc j')" using jt by (auto simp: j'_def)
  have dd: "distinct (drop_nth t cs)"
    using d tl by (simp add: drop_nth_filter)
  have "drop_nth t cs ! j' = c"
    using nth_drop_nth[OF tl j'l] jeq jn by simp
  moreover have "find_pos (drop_nth t cs ! j') (drop_nth t cs) = Some j'"
    using find_pos_distinct_nth[OF dd] j'l tl by (simp add: length_drop_nth)
  ultimately show ?thesis using j'l jeq by auto
qed

text \<open>The data variant, row by row.\<close>

lemma impute_data_rows:
  assumes run: "impute_missing_values_data fill df = Inr dd" and wf: "wf_table df"
  obtains t where
    "find_pos ''timestamp'' (columns df) = Some t"
    "columns dd = drop_nth t (columns df) @ [''timestamp'']"
    "length (rows dd) = length (rows df)"
    "\<forall>k < length (rows df). rows dd ! k =
       (Num (of_nat k),
        map (filled fill (map (\<lambda>r. drop_nth t (snd r)) (rows df)) k) [0..<length (columns df) - 1]
          @ [snd (rows df ! k) ! t])"
proof -
  from run obtain t arr new where t: "find_pos ''timestamp'' (columns df) = Some t"
    and knn: "KNNImputer_fit_transform fill (map (\<lambda>r. drop_nth t (snd r)) (rows df)) = Inr arr"
    and frame: "DataFrame arr (drop_nth t (columns df)) = Inr new"
    and dd: "dd = \<lparr>columns = columns new @ [''timestamp''],
                  rows = map (\<lambda>p. (fst (fst p), snd (fst p) @ [snd p]))
                             (zip (rows new) (map (\<lambda>r. snd r ! t) (rows df)))\<rparr>"
    by (auto simp: impute_missing_values_data_def bindR_Inr_iff col_pos_def split: option.splits)
  let ?X = "map (\<lambda>r. drop_nth t (snd r)) (rows df)"
  from t have tl: "t < length (columns df)" by (rule find_pos_less)
  have rowlen: "length (snd r) = length (columns df)" if "r \<in> set (rows df)" for r
    using wf that by (auto simp: wf_table_def list_all_iff)
  have rect: "\<forall>row \<in> set ?X. length row = length (drop_nth t (columns df))"
    using rowlen tl by (auto simp: length_drop_nth)
  note kd = knn_dataframe[OF knn frame rect]
  from kd(2) have len: "length (rows new) = length (rows df)" by simp
  have n: "length (drop_nth t (columns df)) = length (columns df) - 1"
    using tl by (simp add: length_drop_nth)
  have "columns dd = drop_nth t (columns df) @ [''timestamp'']"
    using kd(1) by (simp add: dd)
  moreover have "length (rows dd) = length (rows df)" using len by (simp add: dd)
  moreover have "\<forall>k < length (rows df). rows dd ! k =
       (Num (of_nat k), map (filled fill ?X k) [0..<length (columns df) - 1] @ [snd (rows df ! k) ! t])"
    using kd(6) len n by (simp add: dd)
  ultimately show thesis using t that by blast
qed

lemma impute_data_post:
  assumes run: "impute_missing_values_data fill df = Inr dd" and wf: "wf_table df"
  shows "columns dd = filter (\<lambda>c. c \<noteq> ''timestamp'') (columns df) @ [''timestamp''] \<and>
         map fst (rows dd) = map (\<lambda>k. Num (of_nat k)) [0..<length (rows df)] \<and>
         the_column dd ''timestamp'' = the_column df ''timestamp'' \<and>
         (\<forall>c \<in> set (columns dd). c \<noteq> ''timestamp'' \<longrightarrow> NaN \<notin> set (the_column dd c)) \<and>
         (\<forall>c \<in> set (columns df). \<forall>k < length (rows df).
            the_column df c ! k \<noteq> NaN \<longrightarrow> the_column dd c ! k = the_column df c ! k)"
proof -
  from run wf obtain t where t: "find_pos ''timestamp'' (columns df) = Some t"
    and cols: "columns dd = drop_nth t (columns df) @ [''timestamp'']"
    and len: "length (rows dd) = length (rows df)"
    and row: "\<forall>k < length (rows df). rows dd ! k =
       (Num (of_nat k),
        map (filled fill (map (\<lambda>r. drop_nth t (snd r)) (rows df)) k) [0..<length (columns df) - 1]
          @ [snd (rows df ! k) ! t])"
    by (rule impute_data_rows)
  let ?X = "map (\<lambda>r. drop_nth t (snd r)) (rows df)"
  let ?n = "length (columns df) - 1"
  from wf have dist: "distinct (columns df)" by (simp add: wf_table_def)
  from t have tl: "t < length (columns df)" and tn: "columns df ! t = ''timestamp''"
    by (simp_all add: find_pos_less find_pos_nth)
  have rowlen: "length (snd (rows df ! k)) = length (columns df)" if "k < length (rows df)" for k
    using wf that by (auto simp: wf_table_def list_all_iff)
  have names: "drop_nth t (columns df) = filter (\<lambda>c. c \<noteq> ''timestamp'') (columns df)"
    using drop_nth_filter[OF dist tl] tn by simp
  have ts_absent: "find_pos ''timestamp'' (drop_nth t (columns df)) = None"
    by (simp add: names find_pos_None_iff)
  have ts_pos: "find_pos ''timestamp'' (columns dd) = Some ?n"
    using tl by (simp add: cols find_pos_snoc_absent[OF ts_absent] length_drop_nth)
  have c1: "columns dd = filter (\<lambda>c. c \<noteq> ''timestamp'') (columns df) @ [''timestamp'']"
    by (simp add: cols names)
  have c2: "map fst (rows dd) = map (\<lambda>k. Num (of_nat k)) [0..<length (rows df)]"
    by (rule nth_equalityI) (use len row in simp_all)
  have c3: "the_column dd ''timestamp'' = the_column df ''timestamp''"
  proof (rule nth_equalityI)
    show "length (the_column dd ''timestamp'') = length (the_column df ''timestamp'')"
      using ts_pos t len by (simp add: the_column_length)
  next
    fix k assume "k < length (the_column dd ''timestamp'')"
    then have k: "k < length (rows df)" using ts_pos len by (simp add: the_column_length)
    with row have "snd (rows dd ! k) ! ?n = snd (rows df ! k) ! t"
      by (simp add: nth_append)
    with k len ts_pos t show "the_column dd ''timestamp'' ! k = the_column df ''timestamp'' ! k"
      by (simp add: the_column_nth)
  qed
  have cell: "\<exists>j j'. find_pos c (columns df) = Some j \<and> find_pos c (columns dd) = Some j' \<and>
                 j' < ?n \<and> j = (if j' < t then j' else Suc j')"
    if "c \<in> set (columns df)" "c \<noteq> ''timestamp''" for c
  proof -
    from that(1) obtain j where j: "find_pos c (columns df) = Some j"
      using find_pos_mem by fastforce
    from find_pos_drop_nth[OF dist t j that(2)] obtain j' where
      "find_pos c (drop_nth t (columns df)) = Some j'" "j' < ?n" "j = (if j' < t then j' else Suc j')"
      by blast
    with j show ?thesis by (auto simp: cols find_pos_append_found)
  qed
  have value_at: "the_column dd c ! k = filled fill ?X k j' \<and>
                  ?X ! k ! j' = the_column df c ! k"
    if "find_pos c (columns df) = Some j" "find_pos c (columns dd) = Some j'" "j' < ?n"
       "j = (if j' < t then j' else Suc j')" "k < length (rows df)" for c j j' k
  proof -
    from that(5) row have "snd (rows dd ! k) ! j' = filled fill ?X k j'"
      using that(3) by (simp add: nth_append)
    moreover have "?X ! k ! j' = snd (rows df ! k) ! j"
      using that(3,4,5) nth_drop_nth[of t "snd (rows df ! k)" j'] tl rowlen[OF that(5)] by simp
    ultimately show ?thesis
      using that(1,2,5) len by (simp add: the_column_nth)
  qed
  have c4: "NaN \<notin> set (the_column dd c)" if "c \<in> set (columns dd)" "c \<noteq> ''timestamp''" for c
  proof
    assume miss: "NaN \<in> set (the_column dd c)"
    from that have "c \<in> set (columns df)" by (auto simp: c1)
    from cell[OF this that(2)] obtain j j' where
      jj: "find_pos c (columns df) = Some j" "find_pos c (columns dd) = Some j'" "j' < ?n"
        "j = (if j' < t then j' else Suc j')" by blast
    from jj(2) have "length (the_column dd c) = length (rows dd)" by (simp add: the_column_length)
    with miss len obtain k where k: "k < length (rows df)" "the_column dd c ! k = NaN"
      by (metis in_set_conv_nth)
    with value_at[OF jj k(1)] filled_ne show False by metis
  qed
  have c5: "the_column dd c ! k = the_column df c ! k"
    if "c \<in> set (columns df)" "k < length (rows df)" "the_column df c ! k \<noteq> NaN" for c k
  proof (cases "c = ''timestamp''")
    case True
    with c3 show ?thesis by simp
  next
    case False
    from cell[OF that(1) False] obtain j j' where
      jj: "find_pos c (columns df) = Some j" "find_pos c (columns dd) = Some j'" "j' < ?n"
        "j = (if j' < t then j' else Suc j')" by blast
    from value_at[OF jj that(2)] that(3) show ?thesis
      by (simp add: filled_observed)
  qed
  from c1 c2 c3 c4 c5 show ?thesis by blast
qed

lemma impute_macro_succeeds:
  assumes wf: "wf_table df" and "rows df \<noteq> []" and "columns df \<noteq> []"
    and "\<not> list_ex (list_ex is_Str) (map snd (rows df))"
    and obs: "\<forall>j < length (columns df). observed_col (map snd (rows df)) j"
  shows "\<exists>dm. impute_missing_values_macro fill df = Inr dm"
proof -
  let ?X = "map snd (rows df)"
  have rowlen: "length (snd r) = length (columns df)" if "r \<in> set (rows df)" for r
    using wf that by (auto simp: wf_table_def list_all_iff)
  from assms(2) have hd: "length (hd ?X) = length (columns df)"
    using rowlen by (cases "rows df") auto
  from obs have valid: "filter (observed_col ?X) [0..<length (columns df)] = [0..<length (columns df)]"
    by simp
  from assms(2,3,4) hd valid
  have knn: "KNNImputer_fit_transform fill ?X
      = Inr (map (impute_row fill ?X [0..<length (columns df)]) (enumerate 0 ?X))"
    by (auto simp: KNNImputer_fit_transform_def)
  have "list_all (\<lambda>row. length row = length (columns df))
          (map (impute_row fill ?X [0..<length (columns df)]) (enumerate 0 ?X))"
    by (simp add: list_all_iff impute_row_def)
  then show ?thesis
    by (simp add: impute_missing_values_macro_def knn bindR_def DataFrame_def)
qed

text \<open>
  Claim C5. When the macro variant returns, the result has the rows of the input in the
  same order under the same labels and no missing value in any column; when the data
  variant returns, the result has as many rows as the input and no missing value in any
  column other than \<open>timestamp\<close>. In both, every cell the input had observed is
  unchanged at its row and column, so the rows are in the order of the input.
\<close>

theorem imputer_fills_missing:
  assumes "wf_table tm" and "impute_missing_values_macro fill tm = Inr dm"
    and "wf_table td" and "impute_missing_values_data fill td = Inr dd"
  shows "length (rows dm) = length (rows tm) \<and>
         map fst (rows dm) = map fst (rows tm) \<and>
         (\<forall>c \<in> set (columns dm). NaN \<notin> set (the_column dm c)) \<and>
         (\<forall>c \<in> set (columns tm). \<forall>k < length (rows tm).
            the_column tm c ! k \<noteq> NaN \<longrightarrow> the_column dm c ! k = the_column tm c ! k) \<and>
         length (rows dd) = length (rows td) \<and>
         (\<forall>c \<in> set (columns dd). c \<noteq> ''timestamp'' \<longrightarrow> NaN \<notin> set (the_column dd c)) \<and>
         (\<forall>c \<in> set (columns td). \<forall>k < length (rows td).
            the_column td c ! k \<noteq> NaN \<longrightarrow> the_column dd c ! k = the_column td c ! k)"
proof -
  note p = impute_macro_post[OF assms(2,1)]
  note q = impute_data_post[OF assms(4,3)]
  from p have "length (map fst (rows dm)) = length (map fst (rows tm))" by simp
  then have lm: "length (rows dm) = length (rows tm)" by simp
  from q have "length (map fst (rows dd)) = length (map (\<lambda>k. Num (rat_of_nat k)) [0..<length (rows td)])"
    by simp
  then have ld: "length (rows dd) = length (rows td)" by simp
  from p q lm ld show ?thesis by simp
qed

theorem imputer_fills_missing_witness:
  "wf_table macro_example \<and>
   impute_missing_values_macro (\<lambda>X i j. 0) macro_example = Inr macro_example_imputed \<and>
   wf_table sales_example_encoded \<and>
   impute_missing_values_data (\<lambda>X i j. 0) sales_example_encoded = Inr sales_example_imputed \<and>
   length (rows macro_example_imputed) = length (rows macro_example) \<and>
   map fst (rows macro_example_imputed) = map fst (rows macro_example) \<and>
   NaN \<notin> set (the_column macro_example_imputed ''cpi'') \<and>
   NaN \<notin> set (the_column macro_example_imputed ''usdrub'') \<and>
   the_column macro_example_imputed ''cpi'' ! 0 = the_column macro_example ''cpi'' ! 0 \<and>
   length (rows sales_example_imputed) = length (rows sales_example_encoded) \<and>
   NaN \<notin> set (the_column sales_example_imputed ''product_type'') \<and>
   NaN \<notin> set (the_column sales_example_imputed ''full_sq'') \<and>
   the_column sales_example_imputed ''full_sq'' ! 0 = the_column sales_example_encoded ''full_sq'' ! 0"
proof -
  have a: "wf_table macro_example" by code_simp
  have b: "impute_missing_values_macro (\<lambda>X i j. 0) macro_example = Inr macro_example_imputed"
    by code_simp
  have c: "wf_table sales_example_encoded" by code_simp
  have d: "impute_missing_values_data (\<lambda>X i j. 0) sales_example_encoded = Inr sales_example_imputed"
    by code_simp
  note t = imputer_fills_missing[OF a b c d]
  note m1 = t[THEN conjunct1]
  note m2 = t[THEN conjunct2, THEN conjunct1]
  note m3 = t[THEN conjunct2, THEN conjunct2, THEN conjunct1, rule_format]
  note m4 = t[THEN conjunct2, THEN conjunct2, THEN conjunct2, THEN conjunct1, rule_format]
  note d1 = t[THEN conjunct2, THEN conjunct2, THEN conjunct2, THEN conjunct2, THEN conjunct1]
  note d2 = t[THEN conjunct2, THEN conjunct2, THEN conjunct2, THEN conjunct2, THEN conjunct2,
      THEN conjunct1, rule_format]
  note d3 = t[THEN conjunct2, THEN conjunct2, THEN conjunct2, THEN conjunct2, THEN conjunct2,
      THEN conjunct2, rule_format]
  have cm1: "''cpi'' \<in> set (columns macro_example_imputed)"
    and cm2: "''usdrub'' \<in> set (columns macro_example_imputed)"
    and cm3: "''cpi'' \<in> set (columns macro_example)"
    and cm4: "0 < length (rows macro_example)"
    by (simp_all add: macro_example_imputed_def macro_example_def)
  have om: "the_column macro_example ''cpi'' ! 0 \<noteq> NaN" by code_simp
  have cd1: "''product_type'' \<in> set (columns sales_example_imputed)"
    and cd2: "''full_sq'' \<in> set (columns sales_example_imputed)"
    and cd3: "''full_sq'' \<in> set (columns sales_example_encoded)"
    and cd4: "0 < length (rows sales_example_encoded)"
    by (simp_all add: sales_example_imputed_def sales_example_encoded_def)
  have od: "the_column sales_example_encoded ''full_sq'' ! 0 \<noteq> NaN" by code_simp
  have ne1: "''product_type'' \<noteq> ''timestamp''" and ne2: "''full_sq'' \<noteq> ''timestamp''"
    by simp_all
  note r1 = m3[OF cm1]
  note r2 = m3[OF cm2]
  note r3 = m4[OF cm3 cm4 om]
  note r4 = d2[OF cd1 ne1]
  note r5 = d2[OF cd2 ne2]
  note r6 = d3[OF cd3 cd4 od]
  show ?thesis
    by (intro conjI) (rule a b c d m1 m2 r1 r2 r3 d1 r4 r5 r6)+
qed

text \<open>
  Claim C4, as the code has it. The result of the data variant has the columns of the
  input other than \<open>timestamp\<close> in their order, then \<open>timestamp\<close> as the last column; it has
  as many rows as the input, and its \<open>timestamp\<close> column is that of the input, row by row.
  The rows are in the order of the input: every cell the input had observed, in any
  column, is found unchanged at the same row of the result.
\<close>

theorem imputer_data_frame:
  assumes "wf_table df" and "impute_missing_values_data fill df = Inr dd"
  shows "columns dd = filter (\<lambda>c. c \<noteq> ''timestamp'') (columns df) @ [''timestamp''] \<and>
         length (rows dd) = length (rows df) \<and>
         the_column dd ''timestamp'' = the_column df ''timestamp'' \<and>
         (\<forall>c \<in> set (columns df). \<forall>k < length (rows df).
            the_column df c ! k \<noteq> NaN \<longrightarrow> the_column dd c ! k = the_column df c ! k)"
proof -
  note p = impute_data_post[OF assms(2,1)]
  from p have "map fst (rows dd) = map (\<lambda>k. Num (of_nat k)) [0..<length (rows df)]" by simp
  then have "length (map fst (rows dd)) = length (map (\<lambda>k. Num (rat_of_nat k)) [0..<length (rows df)])"
    by simp
  then have "length (rows dd) = length (rows df)" by simp
  with p show ?thesis by simp
qed

theorem imputer_data_frame_witness:
  "wf_table sales_example_encoded \<and>
   impute_missing_values_data (\<lambda>X i j. 0) sales_example_encoded = Inr sales_example_imputed \<and>
   columns sales_example_imputed
     = filter (\<lambda>c. c \<noteq> ''timestamp'') (columns sales_example_encoded) @ [''timestamp''] \<and>
   length (rows sales_example_imputed) = length (rows sales_example_encoded) \<and>
   the_column sales_example_imputed ''timestamp'' = the_column sales_example_encoded ''timestamp'' \<and>
   the_column sales_example_imputed ''full_sq'' ! 0 = the_column sales_example_encoded ''full_sq'' ! 0 \<and>
   the_column sales_example_imputed ''full_sq'' ! 3 = the_column sales_example_encoded ''full_sq'' ! 3 \<and>
   the_column sales_example_imputed ''product_type'' ! 1
     = the_column sales_example_encoded ''product_type'' ! 1"
proof -
  have a: "wf_table sales_example_encoded" by code_simp
  have b: "impute_missing_values_data (\<lambda>X i j. 0) sales_example_encoded = Inr sales_example_imputed"
    by code_simp
  note t = imputer_data_frame[OF a b]
  note t1 = t[THEN conjunct1]
  note t2 = t[THEN conjunct2, THEN conjunct1]
  note t3 = t[THEN conjunct2, THEN conjunct2, THEN conjunct1]
  note t4 = t[THEN conjunct2, THEN conjunct2, THEN conjunct2, rule_format]
  have c1: "''full_sq'' \<in> set (columns sales_example_encoded)"
    and c2: "''product_type'' \<in> set (columns sales_example_encoded)"
    and k0: "0 < length (rows sales_example_encoded)"
    and k1: "1 < length (rows sales_example_encoded)"
    and k3: "3 < length (rows sales_example_encoded)"
    by (simp_all add: sales_example_encoded_def)
  have o0: "the_column sales_example_encoded ''full_sq'' ! 0 \<noteq> NaN" by code_simp
  have o3: "the_column sales_example_encoded ''full_sq'' ! 3 \<noteq> NaN" by code_simp
  have o1: "the_column sales_example_encoded ''product_type'' ! 1 \<noteq> NaN" by code_simp
  note r0 = t4[OF c1 k0 o0]
  note r3 = t4[OF c1 k3 o3]
  note r1 = t4[OF c2 k1 o1]
  show ?thesis
    by (intro conjI) (rule a b t1 t2 t3 r0 r3 r1)+
qed

text \<open>
  The claim as the spec words it fails on the encoded sales table: \<open>timestamp\<close> is the
  first column of the input and the last of the output, and the labels 1, 2, 3, 4 of the
  rows become 0, 1, 2, 3.
\<close>

theorem imputer_data_frame_counterexample:
  "impute_missing_values_data (\<lambda>X i j. 0) sales_example_encoded = Inr sales_example_imputed \<and>
   columns sales_example_encoded = [''timestamp'', ''product_type'', ''full_sq''] \<and>
   columns sales_example_imputed = [''product_type'', ''full_sq'', ''timestamp''] \<and>
   map fst (rows sales_example_encoded) = [Num 1, Num 2, Num 3, Num 4] \<and>
   map fst (rows sales_example_imputed) = [Num 0, Num 1, Num 2, Num 3]"
  by code_simp

section \<open>Properties of the macro pipeline, the Writer and the Joiner\<close>

lemma clean_macro_raises: "clean_macro fmt fill df = Inl (NameError ''truncate_extreme_value'')"
  by (simp add: clean_macro_def call_def module_functions_def bindR_def)

text \<open>
  Claim C2 against the code. \<open>clean_macro\<close> raises NameError on every table, because line
  133 calls a name the module does not define. On the macro example the three stages the
  claim names, run in that order, return the imputed table; \<open>clean_macro\<close> returns none.
\<close>

theorem clean_macro_name_error:
  "clean_macro (\<lambda>x. ''0'') (\<lambda>X i j. 0) macro_example = Inl (NameError ''truncate_extreme_value'') \<and>
   bindR (truncate_extreme_values macro_example) (\<lambda>df.
   bindR (convert_categorical_to_numerical (\<lambda>x. ''0'') df) (\<lambda>df.
   impute_missing_values_macro (\<lambda>X i j. 0) df)) = Inr macro_example_imputed"
  by code_simp

text \<open>
  Claim C3 against the code. The path of the macro output is the path of the test
  output, so after the three writes the test output holds the cleaned macro table and
  the cleaned test table is in no file.
\<close>

theorem macro_overwrites_test:
  "MACRO_OUT_PATH = TEST_OUT_PATH \<and>
   write_cleaned survey_example_cleaned sales_example_imputed macro_example_imputed Map.empty
     TEST_OUT_PATH
   = Some ([''cpi'', ''usdrub''], [[Num 354, Num 0], [Num 0, Num 29], [Num 356, Num 30]]) \<and>
   (columns sales_example_imputed, map snd (rows sales_example_imputed))
   = ([''product_type'', ''full_sq'', ''timestamp''],
      [[Num 1, Num 43, Str ''2011-08-20''], [Num 0, Num 34, Str ''2011-08-23''],
       [Num 2, Num 0, Str ''2011-08-27''], [Num 1, Num 77, Str ''2011-09-01'']])"
  by (simp add: write_cleaned_def to_csv_def MACRO_OUT_PATH_def TEST_OUT_PATH_def TRAIN_OUT_PATH_def
      macro_example_imputed_def sales_example_imputed_def)

lemma write_cleaned_test_path:
  "write_cleaned tr te ma files TEST_OUT_PATH = Some (columns ma, map snd (rows ma))"
  by (simp add: write_cleaned_def to_csv_def MACRO_OUT_PATH_def TEST_OUT_PATH_def)

lemma unique_partner:
  "distinct (map fst xs) \<Longrightarrow> m \<in> set xs \<Longrightarrow> filter (\<lambda>r. fst r = fst m) xs = [m]"
proof (induction xs)
  case Nil
  then show ?case by simp
next
  case (Cons x xs)
  show ?case
  proof (cases "m = x")
    case True
    from Cons.prems(1) have "fst x \<notin> fst ` set xs" by simp
    then have "\<forall>r \<in> set xs. fst r \<noteq> fst x" by (metis imageI)
    then have "filter (\<lambda>r. fst r = fst x) xs = []" by (simp add: filter_empty_conv)
    with True show ?thesis by simp
  next
    case False
    with Cons.prems(2) have m: "m \<in> set xs" by simp
    from Cons.prems(1) have "fst x \<notin> fst ` set xs" by simp
    with m have "fst x \<noteq> fst m" by (metis imageI)
    with Cons.IH[OF _ m] Cons.prems(1) show ?thesis by simp
  qed
qed

lemma merge_row_matched:
  assumes "distinct (map fst (rows macro))" "m \<in> set (rows macro)" "fst m = snd l ! t"
  shows "merge_row t macro l = [(fst l, snd l @ snd m)]"
  using unique_partner[OF assms(1,2)] assms(3) by (simp add: merge_row_def)

lemma merge_row_unmatched:
  assumes "\<forall>m \<in> set (rows macro). fst m \<noteq> snd l ! t"
  shows "merge_row t macro l = [(fst l, snd l @ replicate (length (columns macro)) NaN)]"
proof -
  from assms have "filter (\<lambda>r. fst r = snd l ! t) (rows macro) = []"
    by (simp add: filter_empty_conv)
  then show ?thesis by (simp add: merge_row_def)
qed

lemma merge_row_single:
  assumes "distinct (map fst (rows macro))"
  shows "\<exists>cells. merge_row t macro l = [(fst l, snd l @ cells)]"
proof (cases "\<exists>m \<in> set (rows macro). fst m = snd l ! t")
  case True
  then obtain m where "m \<in> set (rows macro)" "fst m = snd l ! t" by blast
  from merge_row_matched[OF assms this] show ?thesis by blast
next
  case False
  then have "\<forall>m \<in> set (rows macro). fst m \<noteq> snd l ! t" by blast
  from merge_row_unmatched[OF this] show ?thesis by blast
qed

lemma concat_singletons:
  assumes "\<forall>x \<in> set xs. length (f x) = 1"
  shows "concat (map f xs) = map (\<lambda>x. hd (f x)) xs"
  using assms
proof (induction xs)
  case Nil
  then show ?case by simp
next
  case (Cons x xs)
  then have "length (f x) = 1" by simp
  then obtain y where "f x = [y]" by (cases "f x") auto
  with Cons show ?case by simp
qed

text \<open>
  Claim C9. For a macro table with one row per key, the join has exactly one row per
  transaction row, in order: the cells of the transaction row followed by the cells of
  the macro row whose key is its timestamp, or by missing values when no macro row has
  that key.
\<close>

theorem join_keeps_every_row:
  assumes "distinct (map fst (rows macro))" and "merge_left df macro = Inr joined"
  shows "length (rows joined) = length (rows df) \<and>
         (\<forall>k < length (rows df).
            (\<forall>m \<in> set (rows macro).
               fst m = cell_of (columns df) (snd (rows df ! k)) ''timestamp'' \<longrightarrow>
               snd (rows joined ! k) = snd (rows df ! k) @ snd m) \<and>
            ((\<forall>m \<in> set (rows macro).
               fst m \<noteq> cell_of (columns df) (snd (rows df ! k)) ''timestamp'') \<longrightarrow>
               snd (rows joined ! k) = snd (rows df ! k) @ replicate (length (columns macro)) NaN))"
proof -
  from assms(2) obtain t where t: "find_pos ''timestamp'' (columns df) = Some t"
    and rows_joined: "rows joined = concat (map (merge_row t macro) (rows df))"
    by (auto simp: merge_left_def bindR_Inr_iff col_pos_def split: option.splits if_splits)
  have single: "\<forall>l \<in> set (rows df). length (merge_row t macro l) = 1"
    using merge_row_single[OF assms(1)] by (metis length_Cons list.size(3) One_nat_def)
  from concat_singletons[OF single]
  have rj: "rows joined = map (\<lambda>l. hd (merge_row t macro l)) (rows df)"
    by (simp add: rows_joined)
  have key: "cell_of (columns df) r ''timestamp'' = r ! t" for r
    using t by (simp add: cell_of_def)
  show ?thesis
  proof (intro conjI allI impI ballI)
    show "length (rows joined) = length (rows df)" by (simp add: rj)
  next
    fix k m
    assume k: "k < length (rows df)" and m: "m \<in> set (rows macro)"
      and eq: "fst m = cell_of (columns df) (snd (rows df ! k)) ''timestamp''"
    from merge_row_matched[OF assms(1) m, of "rows df ! k" t] eq key k
    show "snd (rows joined ! k) = snd (rows df ! k) @ snd m"
      by (simp add: rj)
  next
    fix k
    assume k: "k < length (rows df)"
      and none: "\<forall>m \<in> set (rows macro). fst m \<noteq> cell_of (columns df) (snd (rows df ! k)) ''timestamp''"
    from none key have "\<forall>m \<in> set (rows macro). fst m \<noteq> snd (rows df ! k) ! t" by simp
    from merge_row_unmatched[OF this] k
    show "snd (rows joined ! k) = snd (rows df ! k) @ replicate (length (columns macro)) NaN"
      by (simp add: rj)
  qed
qed

theorem join_keeps_every_row_witness:
  "distinct (map fst (rows macro_example_imputed)) \<and>
   merge_left sales_example_imputed macro_example_imputed = Inr sales_macro_example \<and>
   length (rows sales_macro_example) = length (rows sales_example_imputed) \<and>
   snd (rows sales_macro_example ! 0) = snd (rows sales_example_imputed ! 0) @ [Num 354, Num 0] \<and>
   snd (rows sales_macro_example ! 3)
     = snd (rows sales_example_imputed ! 3) @ replicate (length (columns macro_example_imputed)) NaN"
proof -
  have a: "distinct (map fst (rows macro_example_imputed))" by code_simp
  have b: "merge_left sales_example_imputed macro_example_imputed = Inr sales_macro_example"
    by code_simp
  note t = join_keeps_every_row[OF a b]
  note len = t[THEN conjunct1]
  note per_row = t[THEN conjunct2, rule_format]
  have k0: "0 < length (rows sales_example_imputed)"
    and k3: "3 < length (rows sales_example_imputed)"
    by (simp_all add: sales_example_imputed_def)
  have m: "(Str ''2011-08-20'', [Num 354, Num 0]) \<in> set (rows macro_example_imputed)"
    by (simp add: macro_example_imputed_def)
  have key: "fst (Str ''2011-08-20'', [Num 354, Num 0])
      = cell_of (columns sales_example_imputed) (snd (rows sales_example_imputed ! 0)) ''timestamp''"
    by code_simp
  have none: "\<forall>m \<in> set (rows macro_example_imputed).
      fst m \<noteq> cell_of (columns sales_example_imputed) (snd (rows sales_example_imputed ! 3)) ''timestamp''"
    by code_simp
  note r0 = per_row[OF k0, THEN conjunct1, rule_format, OF m key]
  note r3 = per_row[OF k3, THEN conjunct2, rule_format, OF none[rule_format]]
  from r0 have r0': "snd (rows sales_macro_example ! 0)
      = snd (rows sales_example_imputed ! 0) @ [Num 354, Num 0]" by simp
  show ?thesis
    by (intro conjI) (rule a b len r0' r3)+
qed

end
